theory Spec2Isabelle
  imports Complex_Main "HOL-Library.Product_Lexorder"
begin

section \<open>Data model\<close>

text \<open>
  \<open>Position\<close> and \<open>Vector\<close> are the named tuples \<open>Position(x, y)\<close> and
  \<open>Vector(xdir, ydir)\<close> of \<open>snakepit.datatypes\<close>: pairs of Python integers, compared
  as tuples (lexicographically) where the code takes \<open>max\<close> of them.
\<close>

type_synonym Position = "int \<times> int"
type_synonym Vector = "int \<times> int"

text \<open>
  Modelled from the spec: the four direction constants of the base class \<open>RobotSnake\<close>, which
  is not part of the sources. The spec has four unit vectors, up, down, left and right, each
  with an offset of magnitude 1 on exactly one axis; its planner scenario (head at (5,5), reward
  at (5,2), every step "up") fixes that up decreases y, and "horizontal toward target" with
  \<open>dx > 0\<close> being left fixes that left decreases x.
\<close>

definition UP :: Vector where "UP = (0, -1)"
definition DOWN :: Vector where "DOWN = (0, 1)"
definition LEFT :: Vector where "LEFT = (-1, 0)"
definition RIGHT :: Vector where "RIGHT = (1, 0)"
definition DIRECTIONS :: "Vector list" where "DIRECTIONS = [UP, DOWN, LEFT, RIGHT]"

text \<open>
  Modelled from the spec: the world collaborator, which is not part of the sources. It exposes
  the grid dimensions and a cell lookup giving a (symbol, owner) pair; \<open>cell w y x\<close> stands
  for \<open>world[y][x]\<close>, and the code only ever looks up cells inside the grid.
\<close>

record world =
  SIZE_X :: nat
  SIZE_Y :: nat
  cell :: "nat \<Rightarrow> nat \<Rightarrow> char \<times> nat"

text \<open>
  The fields of \<open>NumberRobotSnake\<close>. \<open>BLOCKS\<close> is computed in \<open>__init__\<close> from
  character constants of the base class \<open>RobotSnake\<close>, which is not part of the sources;
  \<open>BLOCKS\<close>, \<open>CH_HEAD\<close> and \<open>CH_TAIL\<close> are kept as fields, so that every result holds
  for any choice of them. A symbol is a single character. \<open>length\<close> is named \<open>length_s\<close>;
  \<open>current_direction\<close> is declared but never assigned or read, and is left out.
\<close>

record snake =
  color :: nat
  length_s :: nat
  head :: Position
  tail :: Position
  body :: "Position list"
  plan :: "Position list"
  plan_directions :: "Vector list"
  BLOCKS :: "char set"
  CH_HEAD :: char
  CH_TAIL :: char

datatype error = CannotContinue | ZeroDivisionError

text \<open>
  The random number generator is an explicit stream of naturals, threaded through every
  function that draws from it: \<open>randbelow n\<close> reads the next one modulo \<open>n\<close>,
  \<open>advance\<close> moves on. A statement about all streams is a statement about all outcomes of
  the random choices.
\<close>

type_synonym rng = "nat \<Rightarrow> nat"

definition randbelow :: "nat \<Rightarrow> rng \<Rightarrow> nat" where
  "randbelow n r = r 0 mod n"

definition advance :: "rng \<Rightarrow> rng" where
  "advance r = (\<lambda>i. r (Suc i))"

section \<open>Grid oracle\<close>

definition is_block :: "world \<Rightarrow> snake \<Rightarrow> Position \<Rightarrow> bool" where
  "is_block w s point =
     (if fst point < 0 \<or> fst point \<ge> int (SIZE_X w) \<or> snd point < 0 \<or> snd point \<ge> int (SIZE_Y w)
      then True
      else fst (cell w (nat (snd point)) (nat (fst point))) \<in> BLOCKS s)"

definition move :: "Position \<Rightarrow> Vector \<Rightarrow> Position" where
  "move p d = (fst p + fst d, snd p + snd d)"

section \<open>Reachability estimator\<close>

definition open_cells :: "world \<Rightarrow> snake \<Rightarrow> Position set" where
  "open_cells w s = {p. \<not> is_block w s p}"

function flood_fill_loop :: "world \<Rightarrow> snake \<Rightarrow> Position list \<Rightarrow> Position set \<Rightarrow> Position list" where
  "flood_fill_loop w s [] done = []"
| "flood_fill_loop w s (cp # points_to_check) done =
     (if cp \<notin> done then
        (if is_block w s cp then flood_fill_loop w s points_to_check done
         else cp # flood_fill_loop w s
                (rev (filter (\<lambda>next_point. next_point \<notin> done) (map (move cp) DIRECTIONS)) @ points_to_check)
                (insert cp done))
      else flood_fill_loop w s points_to_check (insert cp done))"
  by pat_completeness auto

lemma open_cells_subset:
  "open_cells w s \<subseteq> {0..<int (SIZE_X w)} \<times> {0..<int (SIZE_Y w)}"
  by (auto simp: open_cells_def is_block_def split: if_splits)

lemma finite_open_cells: "finite (open_cells w s)"
  by (rule finite_subset [OF open_cells_subset]) simp

termination flood_fill_loop
proof (relation "(\<lambda>(w, s, stack, dn). card (open_cells w s - dn)) <*mlex*>
                 measure (\<lambda>(w, s, stack, dn). length stack)", goal_cases)
  case 1
  show ?case by (simp add: wf_mlex)
next
  case (2 w s cp stack dn)
  then show ?case by (simp add: mlex_iff)
next
  case (3 w s cp stack dn)
  then have "cp \<in> open_cells w s - dn" by (simp add: open_cells_def)
  then have "card (open_cells w s - insert cp dn) < card (open_cells w s - dn)"
    by (metis Diff_insert card_Diff1_less finite_Diff finite_open_cells)
  then show ?case by (simp add: mlex_iff)
next
  case (4 w s cp stack dn)
  then show ?case by (simp add: mlex_iff insert_absorb)
qed

text \<open>
  \<open>flood_fill\<close> is a generator; its only consumer, \<open>free_room\<close>, counts what it yields
  and may stop early. The generator has no effect of its own and always runs dry, so it is
  modelled by the list of everything it yields, in order. The stack \<open>points_to_check\<close> has
  its top at the head of the list.
\<close>

definition flood_fill :: "world \<Rightarrow> snake \<Rightarrow> Position \<Rightarrow> Position list" where
  "flood_fill w s point = flood_fill_loop w s [point] {}"

text \<open>
  Python floats are modelled by exact rationals: the code only divides two integers and compares
  the quotients with each other and with 1.0.
\<close>

fun free_room_loop :: "nat \<Rightarrow> nat \<Rightarrow> Position list \<Rightarrow> error + rat" where
  "free_room_loop len points [] =
     (if len = 0 then Inl ZeroDivisionError else Inr (of_nat points / of_nat len))"
| "free_room_loop len points (p # rest) =
     (let points' = points + 1
      in if points' \<ge> len then Inr 1 else free_room_loop len points' rest)"

definition free_room :: "world \<Rightarrow> snake \<Rightarrow> Position \<Rightarrow> error + rat" where
  "free_room w s point = free_room_loop (length_s s) 0 (flood_fill w s point)"

section \<open>Agent state tracker\<close>

text \<open>The cells in the order of the two nested \<open>range\<close> loops, as (x, y).\<close>

definition scan_cells :: "world \<Rightarrow> (nat \<times> nat) list" where
  "scan_cells w = concat (map (\<lambda>y. map (\<lambda>x. (x, y)) [0..<SIZE_X w]) [0..<SIZE_Y w])"

fun get_position_loop :: "world \<Rightarrow> (nat \<times> nat) list \<Rightarrow> snake \<Rightarrow> snake" where
  "get_position_loop w [] s = s"
| "get_position_loop w ((x, y) # rest) s =
     (let (char, col) = cell w y x
      in if col = color s then
           (let s1 = (if char = CH_TAIL s then s\<lparr>tail := (int x, int y)\<rparr>
                      else if char = CH_HEAD s then s\<lparr>head := (int x, int y)\<rparr>
                      else s)
            in get_position_loop w rest
                 (s1\<lparr>body := body s1 @ [(int x, int y)], length_s := length_s s1 + 1\<rparr>))
         else get_position_loop w rest s)"

definition get_position :: "world \<Rightarrow> snake \<Rightarrow> snake" where
  "get_position w s = get_position_loop w (scan_cells w) (s\<lparr>body := [], length_s := 0\<rparr>)"

section \<open>Target selector\<close>

definition distance :: "Position \<Rightarrow> Position \<Rightarrow> int" where
  "distance point_1 point_2 = \<bar>fst point_1 - fst point_2\<bar> + \<bar>snd point_1 - snd point_2\<bar>"

definition compute_score :: "int \<Rightarrow> int \<Rightarrow> error + rat" where
  "compute_score bonus dst =
     (if dst = 0 then Inl ZeroDivisionError else Inr (of_int bonus / of_int dst))"

definition digits :: string where
  "digits = ''0123456789''"

text \<open>Python's \<open>int(char)\<close> on one of the characters of \<open>string.digits\<close>.\<close>

definition py_int :: "char \<Rightarrow> int" where
  "py_int c = int (of_char c) - 48"

text \<open>
  Python's \<open>max\<close> of a list: \<open>None\<close> stands for the \<open>ValueError\<close> it raises on an
  empty list; otherwise it keeps the first greatest element.
\<close>

definition py_max :: "'a::linorder list \<Rightarrow> 'a option" where
  "py_max xs = (case xs of [] \<Rightarrow> None
                | x # rest \<Rightarrow> Some (fold (\<lambda>item maxitem. if item > maxitem then item else maxitem) rest x))"

fun find_best_loop ::
  "world \<Rightarrow> snake \<Rightarrow> (nat \<times> nat) list \<Rightarrow> (rat \<times> Position) list \<Rightarrow> error + (rat \<times> Position) list" where
  "find_best_loop w s [] points = Inr points"
| "find_best_loop w s ((x, y) # rest) points =
     (let (char, col) = cell w y x
      in if char \<in> set digits then
           (let point = (int x, int y);
                dst = distance (head s) point
            in case compute_score (py_int char) dst of
                 Inl e \<Rightarrow> Inl e
               | Inr score \<Rightarrow> find_best_loop w s rest (points @ [(score, point)]))
         else find_best_loop w s rest points)"

definition find_best :: "world \<Rightarrow> snake \<Rightarrow> error + Position option" where
  "find_best w s =
     (case find_best_loop w s (scan_cells w) [] of
        Inl e \<Rightarrow> Inl e
      | Inr points \<Rightarrow>
          (case py_max points of
             Some best \<Rightarrow> Inr (Some (snd best))
           | None \<Rightarrow> Inr None))"

section \<open>Path planner\<close>

text \<open>
  The preferred direction and the backup set of one loop iteration of \<open>get_to\<close>, from the
  simulated current position \<open>c\<close> and the target \<open>point\<close>. A backup set is a Python set;
  it is modelled by a list of distinct directions, from which \<open>random.choice\<close> draws by
  index. The order of the list is that of the set display in the source; as the index drawn is
  arbitrary, no result depends on it.
\<close>

definition preferred_direction :: "Position \<Rightarrow> Position \<Rightarrow> Vector" where
  "preferred_direction c point =
     (let dx = fst c - fst point; dy = snd c - snd point
      in if dx = 0 then (if dy > 0 then UP else DOWN)
         else if dy = 0 then (if dx > 0 then LEFT else RIGHT)
         else if \<bar>dx\<bar> > \<bar>dy\<bar> then (if dx > 0 then LEFT else RIGHT)
         else (if dy > 0 then UP else DOWN))"

definition backup_directions :: "Position \<Rightarrow> Position \<Rightarrow> Vector list" where
  "backup_directions c point =
     (let dx = fst c - fst point; dy = snd c - snd point
      in if dx = 0 then [RIGHT, LEFT]
         else if dy = 0 then [UP, DOWN]
         else if \<bar>dx\<bar> > \<bar>dy\<bar> then [if dy > 0 then UP else DOWN]
         else [if dx > 0 then LEFT else RIGHT])"

text \<open>
  The test of the \<open>for\<close> loop, with the short-circuit evaluation of \<open>or\<close>: the room is
  only measured from a cell that is neither blocked nor planned.
\<close>

definition rejected :: "world \<Rightarrow> snake \<Rightarrow> Position \<Rightarrow> error + bool" where
  "rejected w s next_point =
     (if is_block w s next_point then Inr True
      else if next_point \<in> set (plan s) then Inr True
      else case free_room w s next_point of
             Inl e \<Rightarrow> Inl e
           | Inr room \<Rightarrow> Inr (room < 1))"

text \<open>
  \<open>iter_directions\<close> is a generator consumed by the \<open>for\<close> loop of \<open>get_to\<close>:
  \<open>try_directions\<close> tests the preferred direction, then \<open>try_backups\<close> draws the backups
  one by one, only as far as the loop asks for them. The result \<open>Inr None\<close> is the
  \<open>else\<close> branch of the \<open>for\<close> loop: no direction was accepted.
\<close>

function try_backups ::
  "world \<Rightarrow> snake \<Rightarrow> Position \<Rightarrow> Vector list \<Rightarrow> rng \<Rightarrow> (error + Vector option) \<times> rng" where
  "try_backups w s c backups r =
     (if backups \<noteq> [] then
        (let choice = backups ! randbelow (length backups) r;
             r' = advance r
         in case rejected w s (move c choice) of
              Inl e \<Rightarrow> (Inl e, r')
            | Inr False \<Rightarrow> (Inr (Some choice), r')
            | Inr True \<Rightarrow> try_backups w s c (remove1 choice backups) r')
      else (Inr None, r))"
  by pat_completeness auto
termination
  apply (relation "measure (\<lambda>(w, s, c, backups, r). length backups)")
   apply simp
  apply (simp add: length_remove1 randbelow_def)
  done

definition try_directions ::
  "world \<Rightarrow> snake \<Rightarrow> Position \<Rightarrow> Vector \<Rightarrow> Vector list \<Rightarrow> rng \<Rightarrow> (error + Vector option) \<times> rng" where
  "try_directions w s c preferred backups r =
     (case rejected w s (move c preferred) of
        Inl e \<Rightarrow> (Inl e, r)
      | Inr False \<Rightarrow> (Inr (Some preferred), r)
      | Inr True \<Rightarrow> try_backups w s c backups r)"

declare try_backups.simps [simp del]

lemma rejected_False:
  "rejected w s p = Inr False \<longleftrightarrow>
     \<not> is_block w s p \<and> p \<notin> set (plan s) \<and> (\<exists>room. free_room w s p = Inr room \<and> 1 \<le> room)"
  by (auto simp: rejected_def split: sum.splits)

lemma try_backups_accepted:
  "try_backups w s c backups r = (Inr (Some d), r') \<Longrightarrow> rejected w s (move c d) = Inr False"
proof (induction w s c backups r rule: try_backups.induct)
  case (1 w s c backups r)
  show ?case
  proof (cases "backups = []")
    case True
    with "1.prems" show ?thesis by (simp add: try_backups.simps)
  next
    case False
    let ?choice = "backups ! randbelow (length backups) r"
    show ?thesis
    proof (cases "rejected w s (move c ?choice)")
      case (Inl e)
      with False "1.prems" show ?thesis by (simp add: try_backups.simps [of w s c backups r])
    next
      case (Inr b)
      show ?thesis
      proof (cases b)
        case True
        with Inr False "1.prems" have "try_backups w s c (remove1 ?choice backups) (advance r) = (Inr (Some d), r')"
          by (simp add: try_backups.simps [of w s c backups r])
        with "1.IH" [OF False refl refl Inr] True show ?thesis by simp
      next
        case False2: False
        with Inr False "1.prems" show ?thesis by (simp add: try_backups.simps [of w s c backups r])
      qed
    qed
  qed
qed

lemma try_directions_accepted:
  "try_directions w s c preferred backups r = (Inr (Some d), r') \<Longrightarrow> rejected w s (move c d) = Inr False"
  by (auto simp: try_directions_def split: sum.splits bool.splits dest: try_backups_accepted)

lemma is_block_plan_update [simp]:
  "is_block w (s\<lparr>plan := p, plan_directions := q\<rparr>) = is_block w s"
  by (rule ext) (simp add: is_block_def)

lemma open_cells_plan_update:
  "open_cells w (s\<lparr>plan := p, plan_directions := q\<rparr>) = open_cells w s"
  by (simp add: open_cells_def)

text \<open>
  The \<open>while\<close> loop of \<open>get_to\<close>. The plan is mutated in place, so what was planned
  before an exception stays in the state that is returned with it.
\<close>

function get_to_loop ::
  "world \<Rightarrow> snake \<Rightarrow> Position \<Rightarrow> Position \<Rightarrow> rng \<Rightarrow> (error + unit) \<times> snake \<times> rng" where
  "get_to_loop w s point c r =
     (if \<not> (fst c = fst point \<and> snd c = snd point) then
        (case try_directions w s c (preferred_direction c point) (backup_directions c point) r of
           (Inl e, r') \<Rightarrow> (Inl e, s, r')
         | (Inr None, r') \<Rightarrow> (Inl CannotContinue, s, r')
         | (Inr (Some direction), r') \<Rightarrow>
             (let next_point = move c direction
              in get_to_loop w
                   (s\<lparr>plan := plan s @ [next_point],
                      plan_directions := plan_directions s @ [direction]\<rparr>)
                   point next_point r'))
      else (Inr (), s, r))"
  by pat_completeness auto
termination
proof (relation "measure (\<lambda>(w, s, point, c, r). card (open_cells w s - set (plan s)))", goal_cases)
  case 1
  show ?case by simp
next
  case (2 w s point c r x y b x2 xa)
  then have "try_directions w s c (preferred_direction c point) (backup_directions c point) r
             = (Inr (Some x2), y)"
    by simp
  then have "rejected w s xa = Inr False"
    using 2 by (simp add: try_directions_accepted)
  then have "xa \<in> open_cells w s - set (plan s)"
    by (simp add: open_cells_def rejected_False)
  then have "card (open_cells w s - insert xa (set (plan s))) < card (open_cells w s - set (plan s))"
    by (metis Diff_insert card_Diff1_less finite_Diff finite_open_cells)
  then show ?case by (simp add: open_cells_plan_update)
qed

declare get_to_loop.simps [simp del]

definition get_to :: "world \<Rightarrow> snake \<Rightarrow> Position \<Rightarrow> rng \<Rightarrow> (error + unit) \<times> snake \<times> rng" where
  "get_to w s point r = get_to_loop w (s\<lparr>plan := [], plan_directions := []\<rparr>) point (head s) r"

section \<open>Fallback maneuver\<close>

text \<open>
  \<open>random.shuffle\<close> as the standard library has it: for \<open>i\<close> from the last index down
  to 1, swap \<open>x[i]\<close> with \<open>x[randbelow(i + 1)]\<close>.
\<close>

fun shuffle_loop :: "nat \<Rightarrow> 'a list \<Rightarrow> rng \<Rightarrow> 'a list \<times> rng" where
  "shuffle_loop 0 x r = (x, r)"
| "shuffle_loop (Suc i') x r =
     (let i = Suc i'; j = randbelow (i + 1) r
      in shuffle_loop i' (x[i := x ! j, j := x ! i]) (advance r))"

definition shuffle :: "'a list \<Rightarrow> rng \<Rightarrow> 'a list \<times> rng" where
  "shuffle x r = shuffle_loop (length x - 1) x r"

fun backup_loop :: "world \<Rightarrow> snake \<Rightarrow> Vector list \<Rightarrow> (rat \<times> Vector) list \<Rightarrow> error + Vector option" where
  "backup_loop w s [] unblocked =
     (case py_max unblocked of
        Some (_, direction) \<Rightarrow> Inr (Some direction)
      | None \<Rightarrow> Inr None)"
| "backup_loop w s (direction # rest) unblocked =
     (let next_point = move (head s) direction
      in if \<not> is_block w s next_point then
           (case free_room w s next_point of
              Inl e \<Rightarrow> Inl e
            | Inr room \<Rightarrow>
                if room = 1 then Inr (Some direction)
                else backup_loop w s rest (unblocked @ [(room, direction)]))
         else backup_loop w s rest unblocked)"

definition backup :: "world \<Rightarrow> snake \<Rightarrow> rng \<Rightarrow> (error + Vector option) \<times> rng" where
  "backup w s r =
     (let (directions, r') = shuffle DIRECTIONS r
      in (backup_loop w s directions [], r'))"

section \<open>Decision cycle\<close>

text \<open>
  One call of \<open>next_direction\<close>: the result (or the exception that escapes), the state of
  the snake afterwards, and the rest of the random stream. \<open>is_block\<close> is a pure function of
  the world here, so clearing its cache changes nothing.
\<close>

definition next_direction :: "world \<Rightarrow> snake \<Rightarrow> rng \<Rightarrow> (error + Vector option) \<times> snake \<times> rng" where
  "next_direction w s0 r =
     (let s = get_position w s0
      in case find_best w s of
           Inl e \<Rightarrow> (Inl e, s, r)
         | Inr None \<Rightarrow> (fst (backup w s r), s, snd (backup w s r))
         | Inr (Some best) \<Rightarrow>
             (case get_to w s best r of
                (Inl CannotContinue, s', r') \<Rightarrow> (fst (backup w s' r'), s', snd (backup w s' r'))
              | (Inl e, s', r') \<Rightarrow> (Inl e, s', r')
              | (Inr _, s', r') \<Rightarrow>
                  (case plan_directions s' of
                     next_dir # remaining \<Rightarrow> (Inr (Some next_dir), s'\<lparr>plan_directions := remaining\<rparr>, r')
                   | [] \<Rightarrow> (fst (backup w s' r'), s', snd (backup w s' r')))))"

section \<open>Example worlds\<close>

text \<open>
  A world written as its rows of symbols. The snake symbols \<open>@\<close> (head), \<open>*\<close> (body) and
  \<open>$\<close> (tail) belong to owner 1, every other cell to owner 0; \<open>#\<close> is a stone and a
  blank is an empty cell. \<open>new_snake\<close> is a snake of owner 1 as \<open>__init__\<close> leaves it:
  length 0, head and tail at (0, 0), empty plan. These symbols are chosen for the examples
  only; the theorems below hold for every choice.
\<close>

definition rows_world :: "string list \<Rightarrow> world" where
  "rows_world rows =
     \<lparr>SIZE_X = length (hd rows), SIZE_Y = length rows,
      cell = (\<lambda>y x. (rows ! y ! x,
                      if rows ! y ! x \<in> {CHR ''@'', CHR ''*'', CHR ''$''} then 1 else 0))\<rparr>"

definition new_snake :: snake where
  "new_snake =
     \<lparr>color = 1, length_s = 0, head = (0, 0), tail = (0, 0), body = [], plan = [],
      plan_directions = [],
      BLOCKS = {CHR ''#'', CHR ''@'', CHR ''*'', CHR ''$'', CHR ''x''},
      CH_HEAD = CHR ''@'', CH_TAIL = CHR ''$''\<rparr>"

text \<open>
  The 10 by 10 grid of the planner scenario: the head of the snake of owner 1 on (5, 5), the
  reward \<open>9\<close> on (5, 2), every other cell empty.
\<close>

definition scenario_world :: world where
  "scenario_world =
     \<lparr>SIZE_X = 10, SIZE_Y = 10,
      cell = (\<lambda>y x. if (x, y) = (5, 5) then (CHR ''@'', 1)
                     else if (x, y) = (5, 2) then (CHR ''9'', 0)
                     else (CHR '' '', 0))\<rparr>"

section \<open>Properties of the flood fill\<close>

text \<open>
  The cells a 4-connected flood fill reaches from \<open>start\<close>, stated on its own: the start
  if it is open, and every open neighbour of a reached cell. This is the measure the spec
  calls the true reachable count; \<open>flood_fill\<close> is compared with it below.
\<close>

inductive_set reachable :: "(Position \<Rightarrow> bool) \<Rightarrow> Position \<Rightarrow> Position set"
  for blocked :: "Position \<Rightarrow> bool" and start :: Position where
  start: "\<not> blocked start \<Longrightarrow> start \<in> reachable blocked start"
| step: "p \<in> reachable blocked start \<Longrightarrow> d \<in> set DIRECTIONS \<Longrightarrow> \<not> blocked (move p d)
         \<Longrightarrow> move p d \<in> reachable blocked start"

lemma flood_fill_blocked: "is_block w s p \<Longrightarrow> flood_fill w s p = []"
  by (simp add: flood_fill_def)

lemma flood_fill_open: "\<not> is_block w s p \<Longrightarrow> \<exists>rest. flood_fill w s p = p # rest"
  by (simp add: flood_fill_def)

lemma flood_fill_loop_sound:
  assumes "\<forall>x\<in>set stack. \<not> is_block w s x \<longrightarrow> x \<in> T"
    and "\<forall>q\<in>T. \<forall>d\<in>set DIRECTIONS. \<not> is_block w s (move q d) \<longrightarrow> move q d \<in> T"
  shows "set (flood_fill_loop w s stack dn) \<subseteq> T"
  using assms
proof (induction w s stack dn rule: flood_fill_loop.induct)
  case (1 w s dn)
  then show ?case by simp
next
  case (2 w s cp stack dn)
  show ?case
  proof (cases "cp \<in> dn")
    case True
    with 2 show ?thesis by simp
  next
    case False
    show ?thesis
    proof (cases "is_block w s cp")
      case True
      with False 2 show ?thesis by simp
    next
      case free: False
      with "2.prems" have cp: "cp \<in> T" by simp
      let ?new = "rev (filter (\<lambda>next_point. next_point \<notin> dn) (map (move cp) DIRECTIONS)) @ stack"
      have "\<forall>x\<in>set ?new. \<not> is_block w s x \<longrightarrow> x \<in> T"
        using cp "2.prems" by auto
      with "2.IH"(2) [OF False free] "2.prems"(2)
      have "set (flood_fill_loop w s ?new (insert cp dn)) \<subseteq> T" by blast
      with cp False free show ?thesis by simp
    qed
  qed
qed

lemma flood_fill_loop_distinct:
  "distinct (flood_fill_loop w s stack dn) \<and> set (flood_fill_loop w s stack dn) \<inter> dn = {}"
proof (induction w s stack dn rule: flood_fill_loop.induct)
  case (1 w s dn)
  then show ?case by simp
next
  case (2 w s cp stack dn)
  then show ?case by (cases "cp \<in> dn"; cases "is_block w s cp") auto
qed

text \<open>
  The invariant of the loop: every neighbour of a finished cell is finished, waiting on the
  stack, or blocked.
\<close>

definition closed_frontier :: "world \<Rightarrow> snake \<Rightarrow> Position list \<Rightarrow> Position set \<Rightarrow> bool" where
  "closed_frontier w s stack dn \<longleftrightarrow>
     (\<forall>q\<in>dn. \<forall>d\<in>set DIRECTIONS. move q d \<in> dn \<or> move q d \<in> set stack \<or> is_block w s (move q d))"

lemma flood_fill_loop_complete:
  assumes "closed_frontier w s stack dn"
  shows "(\<forall>x\<in>set stack. \<not> is_block w s x \<longrightarrow> x \<in> set (flood_fill_loop w s stack dn) \<union> dn)
       \<and> closed_frontier w s [] (set (flood_fill_loop w s stack dn) \<union> dn)"
  using assms
proof (induction w s stack dn rule: flood_fill_loop.induct)
  case (1 w s dn)
  then show ?case by simp
next
  case (2 w s cp stack dn)
  show ?case
  proof (cases "cp \<in> dn")
    case True
    with "2.prems" have "closed_frontier w s stack (insert cp dn)"
      by (auto simp: closed_frontier_def insert_absorb)
    from "2.IH"(3) [OF _ this] True show ?thesis by (auto simp: insert_absorb)
  next
    case False
    show ?thesis
    proof (cases "is_block w s cp")
      case True
      with "2.prems" have "closed_frontier w s stack dn"
        by (auto simp: closed_frontier_def)
      from "2.IH"(1) [OF False True this] False True show ?thesis by auto
    next
      case free: False
      let ?new = "rev (filter (\<lambda>next_point. next_point \<notin> dn) (map (move cp) DIRECTIONS)) @ stack"
      have "closed_frontier w s ?new (insert cp dn)"
        using "2.prems" unfolding closed_frontier_def by auto
      from "2.IH"(2) [OF False free this] False free show ?thesis by auto
    qed
  qed
qed

lemma flood_fill_set: "set (flood_fill w s p) = reachable (is_block w s) p"
proof
  show "set (flood_fill w s p) \<subseteq> reachable (is_block w s) p"
    unfolding flood_fill_def
    by (rule flood_fill_loop_sound) (auto intro: reachable.intros)
next
  have cf: "closed_frontier w s [p] {}" by (simp add: closed_frontier_def)
  note c = flood_fill_loop_complete [OF cf, folded flood_fill_def]
  show "reachable (is_block w s) p \<subseteq> set (flood_fill w s p)"
  proof
    fix x assume "x \<in> reachable (is_block w s) p"
    then show "x \<in> set (flood_fill w s p)"
    proof induction
      case start
      with c show ?case by simp
    next
      case (step q d)
      with c show ?case by (auto simp: closed_frontier_def)
    qed
  qed
qed

lemma flood_fill_distinct: "distinct (flood_fill w s p)"
  unfolding flood_fill_def by (rule conjunct1 [OF flood_fill_loop_distinct])

lemma length_flood_fill: "length (flood_fill w s p) = card (reachable (is_block w s) p)"
  by (metis distinct_card flood_fill_distinct flood_fill_set)

lemma free_room_loop_eq:
  "free_room_loop len k xs =
     (if xs = [] then (if len = 0 then Inl ZeroDivisionError else Inr (of_nat k / of_nat len))
      else if len \<le> k + length xs then Inr 1
      else Inr (of_nat (k + length xs) / of_nat len))"
proof (induction xs arbitrary: k)
  case Nil
  then show ?case by simp
next
  case (Cons x xs)
  show ?case
  proof (cases "len \<le> k + 1")
    case True
    then show ?thesis by simp
  next
    case False
    then have "free_room_loop len k (x # xs) = free_room_loop len (k + 1) xs"
      by simp
    also have "\<dots> = (if xs = [] then (if len = 0 then Inl ZeroDivisionError else Inr (of_nat (k + 1) / of_nat len))
      else if len \<le> (k + 1) + length xs then Inr 1
      else Inr (of_nat ((k + 1) + length xs) / of_nat len))"
      by (rule Cons.IH)
    also have "\<dots> = (if len \<le> k + length (x # xs) then Inr 1
      else Inr (of_nat (k + length (x # xs)) / of_nat len))"
      using False by (cases xs) (simp_all add: add.commute add.left_commute)
    finally show ?thesis by simp
  qed
qed

lemma free_room_eq:
  "free_room w s p =
     (if is_block w s p then (if length_s s = 0 then Inl ZeroDivisionError else Inr 0)
      else if length_s s \<le> card (reachable (is_block w s) p) then Inr 1
      else Inr (of_nat (card (reachable (is_block w s) p)) / of_nat (length_s s)))"
proof (cases "is_block w s p")
  case True
  then show ?thesis by (simp add: free_room_def flood_fill_blocked)
next
  case False
  then obtain rest where "flood_fill w s p = p # rest" using flood_fill_open by blast
  then have "flood_fill w s p \<noteq> []" by simp
  with False show ?thesis
    by (simp add: free_room_def free_room_loop_eq length_flood_fill)
qed

lemma is_block_length_update [simp]: "is_block w (s\<lparr>length_s := l\<rparr>) = is_block w s"
  by (rule ext) (simp add: is_block_def)

lemma card_reachable_pos: "\<not> is_block w s p \<Longrightarrow> 1 \<le> card (reachable (is_block w s) p)"
  using flood_fill_open [of w s p] length_flood_fill [of w s p] by auto

lemma free_room_open: "\<not> is_block w s p \<Longrightarrow> \<exists>room. free_room w s p = Inr room \<and> 0 < room \<and> room \<le> 1"
  using card_reachable_pos [of w s p] by (simp add: free_room_eq)

section \<open>Properties of the planner\<close>

text \<open>
  A list of coordinates is a path from \<open>p\<close> when every one of them is at Manhattan
  distance 1 from the one before it, \<open>p\<close> coming before the first.
\<close>

fun path_from :: "Position \<Rightarrow> Position list \<Rightarrow> bool" where
  "path_from p [] = True"
| "path_from p (q # qs) = (distance p q = 1 \<and> path_from q qs)"

text \<open>
  The loop of \<open>get_to\<close> with a bound on the number of times its body is entered:
  \<open>None\<close> when the loop would have to enter the body once more than \<open>n\<close> times.
  It is compared with \<open>get_to_loop\<close> below.
\<close>

fun get_to_fuel ::
  "nat \<Rightarrow> world \<Rightarrow> snake \<Rightarrow> Position \<Rightarrow> Position \<Rightarrow> rng \<Rightarrow> ((error + unit) \<times> snake \<times> rng) option" where
  "get_to_fuel 0 w s point c r =
     (if \<not> (fst c = fst point \<and> snd c = snd point) then None else Some (Inr (), s, r))"
| "get_to_fuel (Suc n) w s point c r =
     (if \<not> (fst c = fst point \<and> snd c = snd point) then
        (case try_directions w s c (preferred_direction c point) (backup_directions c point) r of
           (Inl e, r') \<Rightarrow> Some (Inl e, s, r')
         | (Inr None, r') \<Rightarrow> Some (Inl CannotContinue, s, r')
         | (Inr (Some direction), r') \<Rightarrow>
             (let next_point = move c direction
              in get_to_fuel n w
                   (s\<lparr>plan := plan s @ [next_point],
                      plan_directions := plan_directions s @ [direction]\<rparr>)
                   point next_point r'))
      else Some (Inr (), s, r))"

definition in_bounds :: "world \<Rightarrow> Position \<Rightarrow> bool" where
  "in_bounds w p \<longleftrightarrow> 0 \<le> fst p \<and> fst p < int (SIZE_X w) \<and> 0 \<le> snd p \<and> snd p < int (SIZE_Y w)"

lemma rejected_no_error: "\<exists>b. rejected w s p = Inr b"
  using free_room_open [of w s p] by (auto simp: rejected_def)

lemma try_backups_result:
  "\<exists>res. fst (try_backups w s c backups r) = Inr res \<and> (\<forall>d. res = Some d \<longrightarrow> d \<in> set backups)"
proof (induction w s c backups r rule: try_backups.induct)
  case (1 w s c backups r)
  show ?case
  proof (cases "backups = []")
    case True
    then show ?thesis by (simp add: try_backups.simps)
  next
    case False
    let ?choice = "backups ! randbelow (length backups) r"
    from False have mem: "?choice \<in> set backups" by (simp add: randbelow_def)
    obtain b where b: "rejected w s (move c ?choice) = Inr b" using rejected_no_error by blast
    show ?thesis
    proof (cases b)
      case True
      from "1.IH" [OF False refl refl b] True
      obtain res where "fst (try_backups w s c (remove1 ?choice backups) (advance r)) = Inr res"
        "\<forall>d. res = Some d \<longrightarrow> d \<in> set (remove1 ?choice backups)" by auto
      with False b True show ?thesis
        by (auto simp: try_backups.simps [of w s c backups r] dest: set_remove1_subset [THEN subsetD])
    next
      case nb: False
      with False b mem show ?thesis by (auto simp: try_backups.simps [of w s c backups r])
    qed
  qed
qed

lemma try_directions_result:
  "\<exists>res. fst (try_directions w s c preferred backups r) = Inr res
        \<and> (\<forall>d. res = Some d \<longrightarrow> d = preferred \<or> d \<in> set backups)"
proof -
  obtain b where b: "rejected w s (move c preferred) = Inr b" using rejected_no_error by blast
  from try_backups_result [of w s c backups r] b show ?thesis
    by (cases b) (auto simp: try_directions_def)
qed

lemma planned_directions:
  "preferred_direction c point \<in> set DIRECTIONS \<and> set (backup_directions c point) \<subseteq> set DIRECTIONS"
  by (simp add: preferred_direction_def backup_directions_def DIRECTIONS_def Let_def)

lemma distance_move: "d \<in> set DIRECTIONS \<Longrightarrow> distance c (move c d) = 1"
  by (auto simp: DIRECTIONS_def UP_def DOWN_def LEFT_def RIGHT_def distance_def move_def)

lemma path_from_append:
  "path_from p (xs @ [q]) \<longleftrightarrow> path_from p xs \<and> distance (last (p # xs)) q = 1"
  by (induction xs arbitrary: p) auto

text \<open>One iteration that appends.\<close>

lemma try_directions_step:
  assumes "try_directions w s c (preferred_direction c point) (backup_directions c point) r = (Inr (Some d), r')"
  shows "\<not> is_block w s (move c d) \<and> move c d \<notin> set (plan s) \<and> distance c (move c d) = 1"
proof -
  from try_directions_accepted [OF assms] have "\<not> is_block w s (move c d) \<and> move c d \<notin> set (plan s)"
    by (simp add: rejected_False)
  moreover from try_directions_result [of w s c "preferred_direction c point" "backup_directions c point" r] assms
  have "d \<in> set DIRECTIONS" using planned_directions [of c point] by (cases d) auto
  ultimately show ?thesis by (simp add: distance_move)
qed

lemma get_to_loop_invariant:
  assumes "get_to_loop w s point c r = (res, s', r')"
  shows "s' = s\<lparr>plan := plan s', plan_directions := plan_directions s'\<rparr>
       \<and> (res = Inr () \<or> res = Inl CannotContinue)
       \<and> (distinct (plan s) \<longrightarrow> distinct (plan s'))
       \<and> (set (plan s) \<subseteq> open_cells w s \<longrightarrow> set (plan s') \<subseteq> open_cells w s)
       \<and> (path_from h (plan s) \<and> c = last (h # plan s) \<longrightarrow> path_from h (plan s'))"
  using assms
proof (induction w s point c r rule: get_to_loop.induct)
  case (1 w s point c r)
  show ?case
  proof (cases "fst c = fst point \<and> snd c = snd point")
    case True
    with "1.prems" show ?thesis by (auto simp: get_to_loop.simps [of w s point c r])
  next
    case False
    obtain tr r1 where t: "try_directions w s c (preferred_direction c point) (backup_directions c point) r = (Inr tr, r1)"
      using try_directions_result [of w s c "preferred_direction c point" "backup_directions c point" r]
      by (metis fst_conv surj_pair)
    show ?thesis
    proof (cases tr)
      case None
      with False t "1.prems" show ?thesis by (auto simp: get_to_loop.simps [of w s point c r])
    next
      case (Some d)
      let ?np = "move c d"
      let ?s1 = "s\<lparr>plan := plan s @ [?np], plan_directions := plan_directions s @ [d]\<rparr>"
      from Some t have t': "try_directions w s c (preferred_direction c point) (backup_directions c point) r = (Inr (Some d), r1)"
        by simp
      note st = try_directions_step [OF t']
      from False t' "1.prems" have rec: "get_to_loop w ?s1 point ?np r1 = (res, s', r')"
        by (simp add: get_to_loop.simps [of w s point c r] Let_def)
      note IH = "1.IH" [OF False t' [symmetric] refl refl refl rec]
      have oc: "open_cells w ?s1 = open_cells w s" by (simp add: open_cells_plan_update)
      from IH have a: "s' = s\<lparr>plan := plan s', plan_directions := plan_directions s'\<rparr>"
        by (metis (no_types, lifting) snake.surjective snake.update_convs(6,7))
      from IH have b: "res = Inr () \<or> res = Inl CannotContinue" by simp
      from IH st have c: "distinct (plan s) \<longrightarrow> distinct (plan s')" by simp
      from IH st oc have d: "set (plan s) \<subseteq> open_cells w s \<longrightarrow> set (plan s') \<subseteq> open_cells w s"
        by (simp add: open_cells_def)
      from IH st have e: "path_from h (plan s) \<and> c = last (h # plan s) \<longrightarrow> path_from h (plan s')"
        by (auto simp: path_from_append)
      from a b c d e show ?thesis by blast
    qed
  qed
qed

lemma at_target_iff: "(fst c = fst point \<and> snd c = snd point) \<longleftrightarrow> c = point"
  by (auto simp: prod_eq_iff)

lemma get_to_loop_at_target: "get_to_loop w s point point r = (Inr (), s, r)"
  by (simp add: get_to_loop.simps [of w s point point r])

lemma get_to_loop_raise:
  assumes "c \<noteq> point"
    and "try_directions w s c (preferred_direction c point) (backup_directions c point) r = (Inr None, r1)"
  shows "get_to_loop w s point c r = (Inl CannotContinue, s, r1)"
  using assms by (simp add: get_to_loop.simps [of w s point c r] at_target_iff)

lemma get_to_loop_step:
  assumes "c \<noteq> point"
    and "try_directions w s c (preferred_direction c point) (backup_directions c point) r = (Inr (Some d), r1)"
  shows "get_to_loop w s point c r =
         get_to_loop w (s\<lparr>plan := plan s @ [move c d], plan_directions := plan_directions s @ [d]\<rparr>)
           point (move c d) r1"
  using assms by (simp add: get_to_loop.simps [of w s point c r] at_target_iff Let_def)

lemma get_to_fuel_at_target: "get_to_fuel n w s point point r = Some (Inr (), s, r)"
  by (cases n) simp_all

lemma get_to_fuel_out: "c \<noteq> point \<Longrightarrow> get_to_fuel 0 w s point c r = None"
  by (simp add: at_target_iff)

lemma get_to_fuel_raise:
  assumes "c \<noteq> point"
    and "try_directions w s c (preferred_direction c point) (backup_directions c point) r = (Inr None, r1)"
  shows "get_to_fuel (Suc n) w s point c r = Some (Inl CannotContinue, s, r1)"
  using assms by (simp add: at_target_iff)

lemma get_to_fuel_step:
  assumes "c \<noteq> point"
    and "try_directions w s c (preferred_direction c point) (backup_directions c point) r = (Inr (Some d), r1)"
  shows "get_to_fuel (Suc n) w s point c r =
         get_to_fuel n w (s\<lparr>plan := plan s @ [move c d], plan_directions := plan_directions s @ [d]\<rparr>)
           point (move c d) r1"
  using assms by (simp add: at_target_iff Let_def)

declare get_to_fuel.simps [simp del]

lemma try_directions_cases:
  obtains r1 where "try_directions w s c preferred backups r = (Inr None, r1)"
  | d r1 where "try_directions w s c preferred backups r = (Inr (Some d), r1)"
proof -
  obtain tr where "fst (try_directions w s c preferred backups r) = Inr tr"
    using try_directions_result [of w s c preferred backups r] by blast
  then have "try_directions w s c preferred backups r = (Inr tr, snd (try_directions w s c preferred backups r))"
    by (simp add: prod_eq_iff)
  with that show thesis by (cases tr) blast+
qed

lemma get_to_fuel_sound:
  "get_to_fuel n w s point c r = Some res \<Longrightarrow> get_to_loop w s point c r = res"
proof (induction n arbitrary: s c r)
  case 0
  then show ?case
    by (cases "c = point") (simp_all add: get_to_fuel_at_target get_to_loop_at_target get_to_fuel_out)
next
  case (Suc n)
  show ?case
  proof (cases "c = point")
    case True
    with Suc.prems show ?thesis by (simp add: get_to_fuel_at_target get_to_loop_at_target)
  next
    case False
    show ?thesis
    proof (cases rule: try_directions_cases [of w s c "preferred_direction c point" "backup_directions c point" r])
      case (1 r1)
      with False Suc.prems show ?thesis by (simp add: get_to_fuel_raise get_to_loop_raise)
    next
      case (2 d r1)
      with False Suc.prems Suc.IH show ?thesis by (simp add: get_to_fuel_step get_to_loop_step)
    qed
  qed
qed

lemma card_open_cells_append:
  assumes "\<not> is_block w s np" and "np \<notin> set (plan s)"
  shows "Suc (card (open_cells w (s\<lparr>plan := plan s @ [np], plan_directions := q\<rparr>)
                     - set (plan (s\<lparr>plan := plan s @ [np], plan_directions := q\<rparr>))))
         = card (open_cells w s - set (plan s))"
proof -
  from assms have "np \<in> open_cells w s - set (plan s)" by (simp add: open_cells_def)
  moreover have "finite (open_cells w s - set (plan s))" by (simp add: finite_open_cells)
  ultimately have "Suc (card (open_cells w s - set (plan s) - {np})) = card (open_cells w s - set (plan s))"
    by (rule card_Suc_Diff1 [rotated])
  moreover have "open_cells w s - set (plan s) - {np} = open_cells w s - (set (plan s) \<union> {np})" by blast
  ultimately show ?thesis by (simp add: open_cells_plan_update)
qed

lemma get_to_fuel_enough:
  assumes "card (open_cells w s - set (plan s)) < n
         \<or> (card (open_cells w s - set (plan s)) \<le> n
            \<and> (point \<in> open_cells w s - set (plan s) \<or> fst (get_to_loop w s point c r) = Inr ()))"
  shows "get_to_fuel n w s point c r = Some (get_to_loop w s point c r)"
  using assms
proof (induction n arbitrary: s c r)
  case 0
  show ?case
  proof (cases "c = point")
    case True
    then show ?thesis by (simp add: get_to_loop_at_target get_to_fuel_at_target)
  next
    case False
    from 0 have empty: "open_cells w s - set (plan s) = {}"
      by (simp add: finite_open_cells)
    show ?thesis
    proof (cases rule: try_directions_cases [of w s c "preferred_direction c point" "backup_directions c point" r])
      case (1 r1)
      with False have "fst (get_to_loop w s point c r) = Inl CannotContinue"
        by (simp add: get_to_loop_raise)
      with 0 empty show ?thesis by simp
    next
      case (2 d r1)
      with try_directions_step [of w s c point r d r1] empty show ?thesis
        by (auto simp: open_cells_def)
    qed
  qed
next
  case (Suc n)
  show ?case
  proof (cases "c = point")
    case True
    then show ?thesis by (simp add: get_to_loop_at_target get_to_fuel_at_target)
  next
    case False
    show ?thesis
    proof (cases rule: try_directions_cases [of w s c "preferred_direction c point" "backup_directions c point" r])
      case (1 r1)
      with False show ?thesis by (simp add: get_to_loop_raise get_to_fuel_raise)
    next
      case (2 d r1)
      let ?np = "move c d"
      let ?s1 = "s\<lparr>plan := plan s @ [?np], plan_directions := plan_directions s @ [d]\<rparr>"
      from try_directions_step [OF 2] have np: "\<not> is_block w s ?np" "?np \<notin> set (plan s)" by simp_all
      note cd = card_open_cells_append [OF np, of "plan_directions s @ [d]"]
      note loop = get_to_loop_step [OF False 2]
      note fuel = get_to_fuel_step [OF False 2, of n]
      have "card (open_cells w ?s1 - set (plan ?s1)) < n
         \<or> (card (open_cells w ?s1 - set (plan ?s1)) \<le> n
            \<and> (point \<in> open_cells w ?s1 - set (plan ?s1) \<or> fst (get_to_loop w ?s1 point ?np r1) = Inr ()))"
      proof (cases "?np = point")
        case True
        then have "fst (get_to_loop w ?s1 point ?np r1) = Inr ()"
          by (simp add: get_to_loop_at_target)
        with Suc.prems cd show ?thesis by linarith
      next
        case other: False
        then have "point \<in> open_cells w s - set (plan s) \<Longrightarrow> point \<in> open_cells w ?s1 - set (plan ?s1)"
          by (simp add: open_cells_def)
        with Suc.prems cd loop show ?thesis by auto
      qed
      from Suc.IH [OF this] loop fuel show ?thesis by simp
    qed
  qed
qed

lemma card_open_cells_le: "card (open_cells w s) \<le> SIZE_X w * SIZE_Y w"
proof -
  have "card (open_cells w s) \<le> card ({0..<int (SIZE_X w)} \<times> {0..<int (SIZE_Y w)})"
    by (rule card_mono [OF _ open_cells_subset]) simp
  then show ?thesis by simp
qed

lemma card_open_cells_blocked:
  assumes "in_bounds w p" and "is_block w s p"
  shows "card (open_cells w s) < SIZE_X w * SIZE_Y w"
proof -
  let ?G = "{0..<int (SIZE_X w)} \<times> {0..<int (SIZE_Y w)}"
  from assms have "p \<in> ?G" "p \<notin> open_cells w s"
    by (cases p; simp add: in_bounds_def open_cells_def)+
  with open_cells_subset [of w s] have "open_cells w s \<subset> ?G" by blast
  then have "card (open_cells w s) < card ?G" by (intro psubset_card_mono) simp_all
  then show ?thesis by simp
qed

lemma not_blocked_in_bounds: "\<not> is_block w s p \<Longrightarrow> in_bounds w p"
  by (simp add: is_block_def in_bounds_def split: if_splits)

lemma get_to_plan_length:
  "length (plan (fst (snd (get_to w s point r)))) \<le> SIZE_X w * SIZE_Y w"
proof -
  let ?s0 = "s\<lparr>plan := [], plan_directions := []\<rparr>"
  obtain res s' r' where g: "get_to_loop w ?s0 point (head s) r = (res, s', r')"
    by (cases "get_to_loop w ?s0 point (head s) r")
  from get_to_loop_invariant [OF g, of "head s"]
  have d: "distinct (plan s')" and sub: "set (plan s') \<subseteq> open_cells w ?s0" by simp_all
  from d have "length (plan s') = card (set (plan s'))" by (simp add: distinct_card)
  also from sub have "\<dots> \<le> card (open_cells w ?s0)"
    by (intro card_mono finite_open_cells)
  also have "\<dots> \<le> SIZE_X w * SIZE_Y w" by (rule card_open_cells_le)
  finally show ?thesis by (simp add: get_to_def g)
qed

section \<open>Properties of the fallback and of the decision cycle\<close>

lemma fold_max_greatest:
  fixes x :: "'a::linorder"
  shows "fold (\<lambda>item maxitem. if item > maxitem then item else maxitem) rest x \<in> set (x # rest)
       \<and> (\<forall>y\<in>set (x # rest). y \<le> fold (\<lambda>item maxitem. if item > maxitem then item else maxitem) rest x)"
proof (induction rest arbitrary: x)
  case Nil
  then show ?case by simp
next
  case (Cons a rest)
  show ?case
  proof (cases "a > x")
    case True
    with Cons.IH [of a] show ?thesis by auto
  next
    case False
    with Cons.IH [of x] show ?thesis by auto
  qed
qed

lemma py_max_None: "py_max xs = None \<longleftrightarrow> xs = []"
  by (simp add: py_max_def split: list.splits)

lemma py_max_Some:
  "py_max xs = Some m \<Longrightarrow> m \<in> set xs \<and> (\<forall>y\<in>set xs. y \<le> m)"
  using fold_max_greatest by (auto simp: py_max_def split: list.splits)

lemma fst_le_of_pair_le:
  fixes a :: "'a::linorder" and b :: "'b::linorder"
  shows "(a, b) \<le> (c, d) \<Longrightarrow> a \<le> c"
  by (auto simp: less_eq_prod_def)

lemma shuffle_loop_set:
  "i < length x \<Longrightarrow> set (fst (shuffle_loop i x r)) = set x \<and> length (fst (shuffle_loop i x r)) = length x"
proof (induction i arbitrary: x r)
  case 0
  then show ?case by simp
next
  case (Suc i)
  let ?j = "randbelow (Suc i + 1) r"
  have j: "?j < length x" using Suc.prems by (simp add: randbelow_def) (meson less_Suc_eq_le mod_less_divisor order_le_less_trans zero_less_Suc less_trans_Suc)
  let ?x' = "x[Suc i := x ! ?j, ?j := x ! Suc i]"
  from Suc.prems j have "set ?x' = set x" by (simp add: set_swap)
  moreover have "length ?x' = length x" by simp
  moreover from Suc.prems have "i < length ?x'" by simp
  ultimately show ?case using Suc.IH [of ?x' "advance r"] by (simp add: Let_def)
qed

lemma shuffle_set: "set (fst (shuffle x r)) = set x"
proof (cases x)
  case Nil
  then show ?thesis by (simp add: shuffle_def)
next
  case (Cons a list)
  then show ?thesis using shuffle_loop_set [of "length x - 1" x r] by (simp add: shuffle_def)
qed

text \<open>
  The invariant of the loop of \<open>backup\<close>: every recorded candidate is an open neighbour
  of the head, recorded with its room, which is not 1.
\<close>

definition candidates_ok :: "world \<Rightarrow> snake \<Rightarrow> (rat \<times> Vector) list \<Rightarrow> bool" where
  "candidates_ok w s unblocked \<longleftrightarrow>
     (\<forall>(room, d)\<in>set unblocked.
        \<not> is_block w s (move (head s) d) \<and> free_room w s (move (head s) d) = Inr room \<and> room \<noteq> 1)"

lemma backup_loop_result:
  assumes "candidates_ok w s unblocked"
  shows "\<exists>res. backup_loop w s ds unblocked = Inr res
     \<and> (res = None \<longrightarrow> unblocked = [] \<and> (\<forall>d\<in>set ds. is_block w s (move (head s) d)))
     \<and> (\<forall>d. res = Some d \<longrightarrow>
           \<not> is_block w s (move (head s) d) \<and> (d \<in> set ds \<or> d \<in> snd ` set unblocked)
           \<and> (free_room w s (move (head s) d) = Inr 1
              \<or> (\<exists>room. free_room w s (move (head s) d) = Inr room
                   \<and> (\<forall>d'\<in>set ds \<union> snd ` set unblocked. \<not> is_block w s (move (head s) d') \<longrightarrow>
                         (\<exists>room'. free_room w s (move (head s) d') = Inr room' \<and> room' \<le> room \<and> room' \<noteq> 1)))))"
  using assms
proof (induction ds arbitrary: unblocked)
  case Nil
  show ?case
  proof (cases "py_max unblocked")
    case None
    then have "unblocked = []" by (simp add: py_max_None)
    with None show ?thesis by simp
  next
    case (Some m)
    obtain room d where m: "m = (room, d)" by (cases m)
    from py_max_Some [OF Some] m have mem: "(room, d) \<in> set unblocked"
      and mx: "\<forall>y\<in>set unblocked. y \<le> (room, d)" by simp_all
    from mem Nil.prems have ok: "\<not> is_block w s (move (head s) d)" "free_room w s (move (head s) d) = Inr room"
      by (auto simp: candidates_ok_def)
    have all: "\<forall>d'\<in>set [] \<union> snd ` set unblocked. \<not> is_block w s (move (head s) d') \<longrightarrow>
                 (\<exists>room'. free_room w s (move (head s) d') = Inr room' \<and> room' \<le> room \<and> room' \<noteq> 1)"
    proof (intro ballI impI)
      fix d' assume "d' \<in> set [] \<union> snd ` set unblocked"
      then obtain room' where in': "(room', d') \<in> set unblocked" by auto
      with mx have "(room', d') \<le> (room, d)" by blast
      then have "room' \<le> room" by (rule fst_le_of_pair_le)
      with in' Nil.prems
      show "\<exists>room'. free_room w s (move (head s) d') = Inr room' \<and> room' \<le> room \<and> room' \<noteq> 1"
        by (auto simp: candidates_ok_def)
    qed
    have res: "backup_loop w s [] unblocked = Inr (Some d)" using Some m by simp
    from mem have "d \<in> snd ` set unblocked" by force
    with ok all have "\<not> is_block w s (move (head s) d) \<and> (d \<in> set [] \<or> d \<in> snd ` set unblocked)
           \<and> (free_room w s (move (head s) d) = Inr 1
              \<or> (\<exists>room. free_room w s (move (head s) d) = Inr room
                   \<and> (\<forall>d'\<in>set [] \<union> snd ` set unblocked. \<not> is_block w s (move (head s) d') \<longrightarrow>
                         (\<exists>room'. free_room w s (move (head s) d') = Inr room' \<and> room' \<le> room \<and> room' \<noteq> 1))))"
      by blast
    with res show ?thesis by (simp del: split_paired_All backup_loop.simps)
  qed
next
  case (Cons d0 ds)
  show ?case
  proof (cases "is_block w s (move (head s) d0)")
    case True
    with Cons.IH [OF Cons.prems] show ?thesis by auto
  next
    case False
    then obtain room where room: "free_room w s (move (head s) d0) = Inr room"
      using free_room_open by blast
    show ?thesis
    proof (cases "room = 1")
      case True
      with False room show ?thesis by (simp del: split_paired_All)
    next
      case other: False
      from Cons.prems False room other have "candidates_ok w s (unblocked @ [(room, d0)])"
        by (auto simp: candidates_ok_def)
      from Cons.IH [OF this] False room other show ?thesis by auto
    qed
  qed
qed

lemma backup_result:
  "\<exists>res. fst (backup w s r) = Inr res
      \<and> (res = None \<longleftrightarrow> (\<forall>d\<in>set DIRECTIONS. is_block w s (move (head s) d)))
      \<and> (\<forall>d. res = Some d \<longrightarrow> d \<in> set DIRECTIONS \<and> \<not> is_block w s (move (head s) d)
           \<and> (if \<exists>d'\<in>set DIRECTIONS. \<not> is_block w s (move (head s) d')
                      \<and> free_room w s (move (head s) d') = Inr 1
              then free_room w s (move (head s) d) = Inr 1
              else \<exists>room. free_room w s (move (head s) d) = Inr room
                     \<and> (\<forall>d'\<in>set DIRECTIONS. \<not> is_block w s (move (head s) d') \<longrightarrow>
                           (\<exists>room'. free_room w s (move (head s) d') = Inr room' \<and> room' \<le> room))))"
proof -
  let ?ds = "fst (shuffle DIRECTIONS r)"
  have ds: "set ?ds = set DIRECTIONS" by (rule shuffle_set)
  have "candidates_ok w s []" by (simp add: candidates_ok_def)
  from backup_loop_result [OF this, of ?ds] ds
  obtain res where res: "backup_loop w s ?ds [] = Inr res"
    and none: "res = None \<longrightarrow> (\<forall>d\<in>set DIRECTIONS. is_block w s (move (head s) d))"
    and some: "\<forall>d. res = Some d \<longrightarrow>
           \<not> is_block w s (move (head s) d) \<and> d \<in> set DIRECTIONS
           \<and> (free_room w s (move (head s) d) = Inr 1
              \<or> (\<exists>room. free_room w s (move (head s) d) = Inr room
                   \<and> (\<forall>d'\<in>set DIRECTIONS. \<not> is_block w s (move (head s) d') \<longrightarrow>
                         (\<exists>room'. free_room w s (move (head s) d') = Inr room' \<and> room' \<le> room \<and> room' \<noteq> 1))))"
    by auto
  have fst: "fst (backup w s r) = Inr res"
    using res by (simp add: backup_def case_prod_beta)
  have a: "res = None \<longleftrightarrow> (\<forall>d\<in>set DIRECTIONS. is_block w s (move (head s) d))"
    using none some by (cases res) auto
  have b: "\<forall>d. res = Some d \<longrightarrow> d \<in> set DIRECTIONS \<and> \<not> is_block w s (move (head s) d)
           \<and> (if \<exists>d'\<in>set DIRECTIONS. \<not> is_block w s (move (head s) d')
                      \<and> free_room w s (move (head s) d') = Inr 1
              then free_room w s (move (head s) d) = Inr 1
              else \<exists>room. free_room w s (move (head s) d) = Inr room
                     \<and> (\<forall>d'\<in>set DIRECTIONS. \<not> is_block w s (move (head s) d') \<longrightarrow>
                           (\<exists>room'. free_room w s (move (head s) d') = Inr room' \<and> room' \<le> room)))"
  proof (intro allI impI)
    fix d assume "res = Some d"
    with some have s1: "\<not> is_block w s (move (head s) d)" "d \<in> set DIRECTIONS"
      and s2: "free_room w s (move (head s) d) = Inr 1
              \<or> (\<exists>room. free_room w s (move (head s) d) = Inr room
                   \<and> (\<forall>d'\<in>set DIRECTIONS. \<not> is_block w s (move (head s) d') \<longrightarrow>
                         (\<exists>room'. free_room w s (move (head s) d') = Inr room' \<and> room' \<le> room \<and> room' \<noteq> 1)))"
      by blast+
    show "d \<in> set DIRECTIONS \<and> \<not> is_block w s (move (head s) d)
           \<and> (if \<exists>d'\<in>set DIRECTIONS. \<not> is_block w s (move (head s) d')
                      \<and> free_room w s (move (head s) d') = Inr 1
              then free_room w s (move (head s) d) = Inr 1
              else \<exists>room. free_room w s (move (head s) d) = Inr room
                     \<and> (\<forall>d'\<in>set DIRECTIONS. \<not> is_block w s (move (head s) d') \<longrightarrow>
                           (\<exists>room'. free_room w s (move (head s) d') = Inr room' \<and> room' \<le> room)))"
    proof (cases "\<exists>d'\<in>set DIRECTIONS. \<not> is_block w s (move (head s) d')
                      \<and> free_room w s (move (head s) d') = Inr 1")
      case True
      with s2 have "free_room w s (move (head s) d) = Inr 1" by fastforce
      with s1 show ?thesis unfolding if_P [OF True] by blast
    next
      case False
      with s1 s2 have "\<exists>room. free_room w s (move (head s) d) = Inr room
                   \<and> (\<forall>d'\<in>set DIRECTIONS. \<not> is_block w s (move (head s) d') \<longrightarrow>
                         (\<exists>room'. free_room w s (move (head s) d') = Inr room' \<and> room' \<le> room \<and> room' \<noteq> 1))"
        by blast
      then have "\<exists>room. free_room w s (move (head s) d) = Inr room
                     \<and> (\<forall>d'\<in>set DIRECTIONS. \<not> is_block w s (move (head s) d') \<longrightarrow>
                           (\<exists>room'. free_room w s (move (head s) d') = Inr room' \<and> room' \<le> room))"
        by blast
      with s1 show ?thesis unfolding if_not_P [OF False] by blast
    qed
  qed
  from fst a b show ?thesis by blast
qed

lemma free_room_plan_update [simp]:
  "free_room w (s\<lparr>plan := p, plan_directions := q\<rparr>) = free_room w s"
  by (rule ext) (simp add: free_room_eq)

lemma backup_loop_plan_update:
  "backup_loop w (s\<lparr>plan := p, plan_directions := q\<rparr>) ds unblocked = backup_loop w s ds unblocked"
  by (induction ds arbitrary: unblocked) (simp_all add: Let_def split: sum.splits)

lemma backup_plan_update [simp]:
  "backup w (s\<lparr>plan := p, plan_directions := q\<rparr>) r = backup w s r"
  by (simp add: backup_def backup_loop_plan_update)

lemma find_best_loop_error:
  "find_best_loop w s cs points = Inl e \<Longrightarrow> e = ZeroDivisionError"
proof (induction cs arbitrary: points)
  case Nil
  then show ?case by simp
next
  case (Cons c cs)
  obtain x y where c: "c = (x, y)" by (cases c)
  from Cons.prems Cons.IH show ?case
    unfolding c by (auto simp: Let_def compute_score_def split: prod.splits if_splits)
qed

lemma find_best_error: "find_best w s = Inl e \<Longrightarrow> e = ZeroDivisionError"
  by (auto simp: find_best_def split: sum.splits option.splits dest: find_best_loop_error)

lemma get_to_result:
  assumes "get_to w s point r = (res, s', r')"
  shows "(res = Inr () \<or> res = Inl CannotContinue)
       \<and> s' = s\<lparr>plan := plan s', plan_directions := plan_directions s'\<rparr>"
proof -
  from get_to_loop_invariant [OF assms [unfolded get_to_def], of "head s"]
  have "res = Inr () \<or> res = Inl CannotContinue"
    and "s' = s\<lparr>plan := [], plan_directions := []\<rparr>\<lparr>plan := plan s', plan_directions := plan_directions s'\<rparr>"
    by blast+
  then show ?thesis by simp
qed

lemma backup_no_error: "\<exists>res. fst (backup w s r) = Inr res"
  using backup_result [of w s r] by blast

lemma next_direction_contains_planner_failure:
  "fst (next_direction w s0 r) \<noteq> Inl CannotContinue"
proof -
  let ?s = "get_position w s0"
  show ?thesis
  proof (cases "find_best w ?s")
    case (Inl e)
    with find_best_error [OF Inl] show ?thesis by (simp add: next_direction_def Let_def)
  next
    case (Inr target)
    show ?thesis
    proof (cases target)
      case None
      with Inr backup_no_error [of w ?s r] show ?thesis by (auto simp: next_direction_def Let_def)
    next
      case (Some best)
      obtain res s' r' where g: "get_to w ?s best r = (res, s', r')" by (cases "get_to w ?s best r")
      from get_to_result [OF g] have "res = Inr () \<or> res = Inl CannotContinue" by simp
      then show ?thesis
      proof
        assume "res = Inr ()"
        with Inr Some g backup_no_error [of w s' r'] show ?thesis
          by (auto simp: next_direction_def Let_def split: list.splits)
      next
        assume "res = Inl CannotContinue"
        with Inr Some g backup_no_error [of w s' r'] show ?thesis
          by (auto simp: next_direction_def Let_def)
      qed
    qed
  qed
qed

section \<open>Properties of the target selector\<close>

text \<open>
  The words of the claims about the target selector: a digit cell is a cell of the grid whose
  symbol is a decimal digit, and its score is the digit's value divided by its Manhattan
  distance from the head.
\<close>

definition symbol_at :: "world \<Rightarrow> Position \<Rightarrow> char" where
  "symbol_at w p = fst (cell w (nat (snd p)) (nat (fst p)))"

definition digit_cell :: "world \<Rightarrow> Position \<Rightarrow> bool" where
  "digit_cell w p \<longleftrightarrow> in_bounds w p \<and> symbol_at w p \<in> set digits"

definition score :: "world \<Rightarrow> snake \<Rightarrow> Position \<Rightarrow> rat" where
  "score w s p = of_int (py_int (symbol_at w p)) / of_int (distance (head s) p)"

lemma set_scan_cells: "set (scan_cells w) = {(x, y). x < SIZE_X w \<and> y < SIZE_Y w}"
  by (auto simp: scan_cells_def)

lemma digit_cell_iff:
  "digit_cell w p \<longleftrightarrow>
     (\<exists>(x, y)\<in>set (scan_cells w). p = (int x, int y) \<and> fst (cell w y x) \<in> set digits)"
proof
  assume d: "digit_cell w p"
  then have "(nat (fst p), nat (snd p)) \<in> set (scan_cells w)"
    by (auto simp: digit_cell_def in_bounds_def set_scan_cells)
  moreover from d have "p = (int (nat (fst p)), int (nat (snd p)))"
    by (simp add: digit_cell_def in_bounds_def prod_eq_iff)
  moreover from d have "fst (cell w (nat (snd p)) (nat (fst p))) \<in> set digits"
    by (simp add: digit_cell_def symbol_at_def)
  ultimately show "\<exists>(x, y)\<in>set (scan_cells w). p = (int x, int y) \<and> fst (cell w y x) \<in> set digits"
    by blast
next
  assume "\<exists>(x, y)\<in>set (scan_cells w). p = (int x, int y) \<and> fst (cell w y x) \<in> set digits"
  then show "digit_cell w p"
    by (auto simp: digit_cell_def in_bounds_def set_scan_cells symbol_at_def)
qed

text \<open>The list \<open>points\<close> that the scan of \<open>find_best\<close> builds from the cells \<open>cs\<close>.\<close>

definition scored :: "world \<Rightarrow> snake \<Rightarrow> (nat \<times> nat) list \<Rightarrow> (rat \<times> Position) list" where
  "scored w s cs =
     map (\<lambda>(x, y). (score w s (int x, int y), (int x, int y)))
       (filter (\<lambda>(x, y). fst (cell w y x) \<in> set digits) cs)"

lemma scored_Nil [simp]: "scored w s [] = []"
  by (simp add: scored_def)

lemma scored_Cons:
  "scored w s ((x, y) # cs) =
     (if fst (cell w y x) \<in> set digits then (score w s (int x, int y), (int x, int y)) # scored w s cs
      else scored w s cs)"
  by (simp add: scored_def)

lemma find_best_loop_points:
  assumes "\<forall>(x, y)\<in>set cs. fst (cell w y x) \<in> set digits \<longrightarrow> distance (head s) (int x, int y) \<noteq> 0"
  shows "find_best_loop w s cs points = Inr (points @ scored w s cs)"
  using assms
proof (induction cs arbitrary: points)
  case Nil
  then show ?case by simp
next
  case (Cons c cs)
  obtain x y where c: "c = (x, y)" by (cases c)
  from Cons.prems have rest: "\<forall>(x, y)\<in>set cs. fst (cell w y x) \<in> set digits \<longrightarrow> distance (head s) (int x, int y) \<noteq> 0"
    by simp
  show ?case
  proof (cases "fst (cell w y x) \<in> set digits")
    case True
    with Cons.prems c have "distance (head s) (int x, int y) \<noteq> 0" by simp
    with True Cons.IH [OF rest] show ?thesis
      unfolding c by (simp add: scored_Cons Let_def case_prod_beta compute_score_def score_def symbol_at_def)
  next
    case False
    with Cons.IH [OF rest] show ?thesis
      unfolding c by (simp add: scored_Cons Let_def case_prod_beta)
  qed
qed

lemma find_best_loop_zero:
  assumes "\<exists>(x, y)\<in>set cs. fst (cell w y x) \<in> set digits \<and> distance (head s) (int x, int y) = 0"
  shows "find_best_loop w s cs points = Inl ZeroDivisionError"
  using assms
proof (induction cs arbitrary: points)
  case Nil
  then show ?case by simp
next
  case (Cons c cs)
  obtain x y where c: "c = (x, y)" by (cases c)
  show ?case
  proof (cases "fst (cell w y x) \<in> set digits \<and> distance (head s) (int x, int y) = 0")
    case True
    then show ?thesis unfolding c by (simp add: Let_def case_prod_beta compute_score_def)
  next
    case False
    with Cons.prems c
    have "\<exists>(x, y)\<in>set cs. fst (cell w y x) \<in> set digits \<and> distance (head s) (int x, int y) = 0"
      by auto
    from Cons.IH [OF this] show ?thesis
      unfolding c by (simp add: Let_def case_prod_beta compute_score_def)
  qed
qed

lemma set_scored:
  "set (scored w s (scan_cells w)) = {(score w s p, p) | p. digit_cell w p}"
  by (auto simp: scored_def digit_cell_iff image_iff)

lemma find_best_result:
  assumes "\<forall>p. digit_cell w p \<longrightarrow> distance (head s) p \<noteq> 0"
  shows "\<exists>res. find_best w s = Inr res
       \<and> (res = None \<longleftrightarrow> (\<forall>p. \<not> digit_cell w p))
       \<and> (\<forall>b. res = Some b \<longrightarrow> digit_cell w b \<and> (\<forall>p. digit_cell w p \<longrightarrow> score w s p \<le> score w s b))"
proof -
  from assms
  have "\<forall>(x, y)\<in>set (scan_cells w). fst (cell w y x) \<in> set digits \<longrightarrow> distance (head s) (int x, int y) \<noteq> 0"
    by (auto simp: digit_cell_iff)
  from find_best_loop_points [OF this, of "[]"]
  have loop: "find_best_loop w s (scan_cells w) [] = Inr (scored w s (scan_cells w))" by simp
  show ?thesis
  proof (cases "py_max (scored w s (scan_cells w))")
    case None
    then have "set (scored w s (scan_cells w)) = {}" by (simp add: py_max_None)
    then have "\<forall>p. \<not> digit_cell w p" unfolding set_scored by blast
    with None loop show ?thesis by (simp add: find_best_def)
  next
    case (Some m)
    obtain sc b where m: "m = (sc, b)" by (cases m)
    from py_max_Some [OF Some] m have mem: "(sc, b) \<in> set (scored w s (scan_cells w))"
      and mx: "\<forall>y\<in>set (scored w s (scan_cells w)). y \<le> (sc, b)" by simp_all
    from mem have b: "digit_cell w b" "sc = score w s b" unfolding set_scored by auto
    have "score w s p \<le> score w s b" if "digit_cell w p" for p
    proof -
      from that have "(score w s p, p) \<in> set (scored w s (scan_cells w))" unfolding set_scored by blast
      with mx have "(score w s p, p) \<le> (sc, b)" by blast
      then show ?thesis unfolding b(2) by (rule fst_le_of_pair_le)
    qed
    with b have "digit_cell w b \<and> (\<forall>p. digit_cell w p \<longrightarrow> score w s p \<le> score w s b)" by blast
    moreover from b have "\<not> (\<forall>p. \<not> digit_cell w p)" by blast
    moreover from Some m loop have "find_best w s = Inr (Some b)" by (simp add: find_best_def)
    ultimately show ?thesis by (simp del: split_paired_All)
  qed
qed

lemma distance_zero_iff: "distance p q = 0 \<longleftrightarrow> p = q"
  by (auto simp: distance_def prod_eq_iff)

lemma find_best_never_head: "find_best w s \<noteq> Inr (Some (head s))"
proof (cases "digit_cell w (head s)")
  case True
  then have "\<exists>(x, y)\<in>set (scan_cells w). fst (cell w y x) \<in> set digits \<and> distance (head s) (int x, int y) = 0"
    by (auto simp: digit_cell_iff distance_zero_iff)
  from find_best_loop_zero [OF this] show ?thesis by (simp add: find_best_def)
next
  case False
  show ?thesis
  proof
    assume a: "find_best w s = Inr (Some (head s))"
    have "\<forall>p. digit_cell w p \<longrightarrow> distance (head s) p \<noteq> 0"
      using False by (auto simp: distance_zero_iff)
    from find_best_result [OF this] a have "digit_cell w (head s)"
      by (auto simp del: split_paired_All)
    with False show False by simp
  qed
qed

section \<open>Properties of the state tracker and of a planner step\<close>

lemma get_position_loop_foreign:
  "\<forall>(x, y)\<in>set cs. snd (cell w y x) \<noteq> color s \<Longrightarrow> get_position_loop w cs s = s"
proof (induction cs)
  case Nil
  then show ?case by simp
next
  case (Cons c cs)
  obtain x y where c: "c = (x, y)" by (cases c)
  from Cons show ?case unfolding c by (simp add: case_prod_beta)
qed

lemma get_position_loop_append:
  "get_position_loop w (xs @ ys) s = get_position_loop w ys (get_position_loop w xs s)"
proof (induction xs arbitrary: s)
  case Nil
  then show ?case by simp
next
  case (Cons c xs)
  obtain x y where c: "c = (x, y)" by (cases c)
  from Cons show ?case unfolding c by (simp add: case_prod_beta Let_def)
qed

lemma distinct_rows:
  "distinct xs \<Longrightarrow> distinct ys \<Longrightarrow> distinct (concat (map (\<lambda>y. map (\<lambda>x. (x, y)) xs) ys))"
  by (induction ys) (auto simp: distinct_map inj_on_def)

lemma distinct_scan_cells: "distinct (scan_cells w)"
  unfolding scan_cells_def by (rule distinct_rows) simp_all

lemma get_position_single:
  assumes own: "x0 < SIZE_X w" "y0 < SIZE_Y w" "cell w y0 x0 = (CH_HEAD s0, color s0)"
    and tail: "CH_HEAD s0 \<noteq> CH_TAIL s0"
    and others: "\<forall>x<SIZE_X w. \<forall>y<SIZE_Y w. (x, y) \<noteq> (x0, y0) \<longrightarrow> snd (cell w y x) \<noteq> color s0"
  shows "get_position w s0 = s0\<lparr>head := (int x0, int y0), body := [(int x0, int y0)], length_s := 1\<rparr>"
proof -
  from own have "(x0, y0) \<in> set (scan_cells w)" by (simp add: set_scan_cells)
  then obtain pre post where sp: "scan_cells w = pre @ (x0, y0) # post"
    by (auto dest: split_list)
  with distinct_scan_cells [of w] have notin: "(x0, y0) \<notin> set pre" "(x0, y0) \<notin> set post"
    by simp_all
  have sub: "set pre \<subseteq> set (scan_cells w)" "set post \<subseteq> set (scan_cells w)"
    unfolding sp by auto
  let ?i = "s0\<lparr>body := [], length_s := 0\<rparr>"
  let ?f = "s0\<lparr>head := (int x0, int y0), body := [(int x0, int y0)], length_s := 1\<rparr>"
  have "\<forall>(x, y)\<in>set pre. snd (cell w y x) \<noteq> color ?i"
    using notin(1) sub(1) others by (auto simp: set_scan_cells)
  then have pre: "get_position_loop w pre ?i = ?i" by (rule get_position_loop_foreign)
  have "\<forall>(x, y)\<in>set post. snd (cell w y x) \<noteq> color ?f"
    using notin(2) sub(2) others by (auto simp: set_scan_cells)
  then have post: "get_position_loop w post ?f = ?f" by (rule get_position_loop_foreign)
  have mid: "get_position_loop w ((x0, y0) # post) ?i = get_position_loop w post ?f"
    using own(3) tail by (simp add: Let_def)
  show ?thesis
    unfolding get_position_def sp get_position_loop_append pre mid post ..
qed

lemma rejected_short:
  assumes "\<not> is_block w s p" and "p \<notin> set (plan s)" and "length_s s \<le> 1"
  shows "rejected w s p = Inr False"
proof -
  from card_reachable_pos [OF assms(1)] assms(3)
  have "length_s s \<le> card (reachable (is_block w s) p)" by simp
  with assms(1) have "free_room w s p = Inr 1" by (simp add: free_room_eq)
  with assms(1,2) show ?thesis by (simp add: rejected_def)
qed

lemma try_directions_preferred:
  "rejected w s (move c preferred) = Inr False
   \<Longrightarrow> try_directions w s c preferred backups r = (Inr (Some preferred), r)"
  by (simp add: try_directions_def)

lemma get_to_loop_preferred:
  assumes "c \<noteq> point" and "\<not> is_block w s (move c (preferred_direction c point))"
    and "move c (preferred_direction c point) \<notin> set (plan s)" and "length_s s \<le> 1"
  shows "get_to_loop w s point c r =
         get_to_loop w (s\<lparr>plan := plan s @ [move c (preferred_direction c point)],
                          plan_directions := plan_directions s @ [preferred_direction c point]\<rparr>)
           point (move c (preferred_direction c point)) r"
  by (rule get_to_loop_step [OF assms(1)])
     (rule try_directions_preferred [OF rejected_short [OF assms(2,3,4)]])

section \<open>Facts about the example worlds\<close>

lemma two_cells_open: "\<not> is_block (rows_world [''  '']) new_snake (0, 0)"
  by (simp add: is_block_def rows_world_def new_snake_def)

lemma two_cells_flood_fill: "flood_fill (rows_world [''  '']) new_snake (0, 0) = [(0, 0), (1, 0)]"
  by (simp add: flood_fill_def is_block_def rows_world_def new_snake_def DIRECTIONS_def move_def
      UP_def DOWN_def LEFT_def RIGHT_def)

lemma two_cells_reachable: "card (reachable (is_block (rows_world [''  '']) new_snake) (0, 0)) = 2"
  using length_flood_fill [of "rows_world [''  '']" new_snake "(0, 0)"]
  by (simp add: two_cells_flood_fill)

text \<open>The equations by which the simplifier runs the planner on an example world.\<close>

lemmas planner_eval =
  get_to_def get_to_loop.simps try_directions_def try_backups.simps rejected_def free_room_def
  flood_fill_def is_block_def rows_world_def new_snake_def preferred_direction_def
  backup_directions_def DIRECTIONS_def move_def UP_def DOWN_def LEFT_def RIGHT_def Let_def
  randbelow_def advance_def

lemma three_cells_get_to:
  "get_to (rows_world [''   '']) new_snake (2, 0) (\<lambda>_. 0)
     = (Inr (), new_snake\<lparr>plan := [(1, 0), (2, 0)], plan_directions := [RIGHT, RIGHT]\<rparr>, (\<lambda>_. 0))"
  by (simp add: planner_eval)

text \<open>The same for the whole decision cycle.\<close>

lemmas cycle_eval =
  planner_eval get_position_def scan_cells_def find_best_def digits_def distance_def
  compute_score_def py_int_def py_max_def less_prod_def backup_def shuffle_def

text \<open>The head on (0, 0), a stone on (1, 0), the reward \<open>5\<close> behind it on (2, 0).\<close>

lemma stone_wall_position:
  "get_position (rows_world [''@#5'']) new_snake = new_snake\<lparr>body := [(0, 0)], length_s := 1\<rparr>"
  by (simp add: cycle_eval)

lemma stone_wall_best:
  "find_best (rows_world [''@#5'']) (new_snake\<lparr>body := [(0, 0)], length_s := 1\<rparr>)
     = Inr (Some (2, 0))"
  by (simp add: cycle_eval)

lemma stone_wall_get_to:
  "get_to (rows_world [''@#5'']) (new_snake\<lparr>body := [(0, 0)], length_s := 1\<rparr>) (2, 0) (\<lambda>_. 0)
     = (Inl CannotContinue, new_snake\<lparr>body := [(0, 0)], length_s := 1\<rparr>, (\<lambda>_. 0))"
  by (simp add: cycle_eval)

lemma stone_wall_backup:
  "backup (rows_world [''@#5'']) (new_snake\<lparr>body := [(0, 0)], length_s := 1\<rparr>) (\<lambda>_. 0)
     = (Inr None, (\<lambda>_. 0))"
  by (simp add: cycle_eval)

text \<open>The head on (0, 0) at the end of a corridor of two open cells, with length 3.\<close>

lemma corridor_backup:
  "fst (backup (rows_world [''@  '']) (new_snake\<lparr>length_s := 3\<rparr>) (\<lambda>_. 0)) = Inr (Some RIGHT)"
  by (simp add: cycle_eval)

lemma corridor_room:
  "free_room (rows_world [''@  '']) (new_snake\<lparr>length_s := 3\<rparr>)
     (move (head (new_snake\<lparr>length_s := 3\<rparr>)) RIGHT) = Inr (2 / 3)"
  by (simp add: cycle_eval)

text \<open>One row with a \<open>3\<close> on (0, 0), the head on (1, 0) and a \<open>9\<close> on (6, 0).\<close>

lemma below_seven: "0 \<le> (x::int) \<Longrightarrow> x < 7 \<Longrightarrow> x = 0 \<or> x = 1 \<or> x = 2 \<or> x = 3 \<or> x = 4 \<or> x = 5 \<or> x = 6"
  by arith

lemma two_rewards_digit_cells:
  "digit_cell (rows_world [''3@    9'']) p \<longleftrightarrow> p = (0, 0) \<or> p = (6, 0)"
proof (cases p)
  case (Pair x y)
  show ?thesis
  proof
    assume d: "digit_cell (rows_world [''3@    9'']) p"
    then have y: "y = 0" and x: "0 \<le> x" "x < 7"
      unfolding Pair by (simp_all add: digit_cell_def in_bounds_def rows_world_def)
    from below_seven [OF x] d y show "p = (0, 0) \<or> p = (6, 0)"
      unfolding Pair by (elim disjE) (simp_all add: digit_cell_def symbol_at_def rows_world_def digits_def)
  next
    assume "p = (0, 0) \<or> p = (6, 0)"
    then show "digit_cell (rows_world [''3@    9'']) p"
      by (elim disjE) (simp_all add: digit_cell_def in_bounds_def symbol_at_def rows_world_def digits_def)
  qed
qed

section \<open>The claims\<close>

subsection \<open>C1: the plan is a simple path\<close>

text \<open>
  Claim C1: whenever \<open>get_to\<close> completes without raising, the plan it leaves contains no
  coordinate twice, and every coordinate of the plan is at Manhattan distance exactly 1 from
  the one before it, the head coming before the first.
\<close>

theorem get_to_plan_simple_path:
  assumes "get_to w s point r = (Inr u, s', r')"
  shows "distinct (plan s') \<and> path_from (head s) (plan s')"
  using get_to_loop_invariant [OF assms [unfolded get_to_def], of "head s"] by simp

theorem get_to_plan_simple_path_witness:
  "get_to (rows_world [''   '']) new_snake (2, 0) (\<lambda>_. 0)
     = (Inr (), new_snake\<lparr>plan := [(1, 0), (2, 0)], plan_directions := [RIGHT, RIGHT]\<rparr>, (\<lambda>_. 0))
   \<and> distinct [(1, 0), (2, 0) :: Position]
   \<and> path_from (head new_snake) [(1, 0), (2, 0)]"
  using get_to_plan_simple_path [OF three_cells_get_to] three_cells_get_to by simp

subsection \<open>C2: a planner failure is recovered by the fallback\<close>

text \<open>
  Claim C2: when \<open>find_best\<close> returns a target and \<open>get_to\<close> raises \<open>CannotContinue\<close>,
  \<open>next_direction\<close> returns exactly the result of \<open>backup\<close> (called on the state the
  planner left, which differs from the refreshed state in the plan only, so the result is that
  of \<open>backup\<close> on the refreshed state); and \<open>CannotContinue\<close> never escapes
  \<open>next_direction\<close>, whatever the world.
\<close>

theorem next_direction_recovers_planner_failure:
  "(find_best w (get_position w s0) = Inr (Some best)
      \<and> get_to w (get_position w s0) best r = (Inl CannotContinue, s', r')
    \<longrightarrow> next_direction w s0 r = (fst (backup w s' r'), s', snd (backup w s' r'))
        \<and> backup w s' r' = backup w (get_position w s0) r')
   \<and> fst (next_direction w s0 r) \<noteq> Inl CannotContinue"
proof (intro conjI impI)
  assume a: "find_best w (get_position w s0) = Inr (Some best)
      \<and> get_to w (get_position w s0) best r = (Inl CannotContinue, s', r')"
  then show "next_direction w s0 r = (fst (backup w s' r'), s', snd (backup w s' r'))"
    by (simp add: next_direction_def Let_def)
  from a get_to_result [of w "get_position w s0" best r "Inl CannotContinue" s' r']
  have "s' = (get_position w s0)\<lparr>plan := plan s', plan_directions := plan_directions s'\<rparr>" by simp
  then show "backup w s' r' = backup w (get_position w s0) r'"
    by (metis backup_plan_update)
next
  show "fst (next_direction w s0 r) \<noteq> Inl CannotContinue"
    by (rule next_direction_contains_planner_failure)
qed

theorem next_direction_recovers_planner_failure_witness:
  "find_best (rows_world [''@#5'']) (get_position (rows_world [''@#5'']) new_snake) = Inr (Some (2, 0))
   \<and> get_to (rows_world [''@#5'']) (get_position (rows_world [''@#5'']) new_snake) (2, 0) (\<lambda>_. 0)
       = (Inl CannotContinue, new_snake\<lparr>body := [(0, 0)], length_s := 1\<rparr>, (\<lambda>_. 0))
   \<and> next_direction (rows_world [''@#5'']) new_snake (\<lambda>_. 0)
       = (Inr None, new_snake\<lparr>body := [(0, 0)], length_s := 1\<rparr>, (\<lambda>_. 0))"
proof -
  have a: "find_best (rows_world [''@#5'']) (get_position (rows_world [''@#5'']) new_snake)
             = Inr (Some (2, 0))"
    unfolding stone_wall_position by (rule stone_wall_best)
  have b: "get_to (rows_world [''@#5'']) (get_position (rows_world [''@#5'']) new_snake) (2, 0) (\<lambda>_. 0)
             = (Inl CannotContinue, new_snake\<lparr>body := [(0, 0)], length_s := 1\<rparr>, (\<lambda>_. 0))"
    unfolding stone_wall_position by (rule stone_wall_get_to)
  from a b next_direction_recovers_planner_failure
    [of "rows_world [''@#5'']" new_snake "(2, 0)" "\<lambda>_. 0"
        "new_snake\<lparr>body := [(0, 0)], length_s := 1\<rparr>" "\<lambda>_. 0"]
  have "next_direction (rows_world [''@#5'']) new_snake (\<lambda>_. 0)
          = (fst (backup (rows_world [''@#5'']) (new_snake\<lparr>body := [(0, 0)], length_s := 1\<rparr>) (\<lambda>_. 0)),
             new_snake\<lparr>body := [(0, 0)], length_s := 1\<rparr>,
             snd (backup (rows_world [''@#5'']) (new_snake\<lparr>body := [(0, 0)], length_s := 1\<rparr>) (\<lambda>_. 0)))"
    by blast
  then have "next_direction (rows_world [''@#5'']) new_snake (\<lambda>_. 0)
          = (Inr None, new_snake\<lparr>body := [(0, 0)], length_s := 1\<rparr>, (\<lambda>_. 0))"
    by (simp only: stone_wall_backup fst_conv snd_conv)
  with a b show ?thesis by blast
qed

subsection \<open>C3: the target selector picks a best score\<close>

text \<open>
  Claim C3: in a world where every digit cell is at Manhattan distance at least 1 from the
  head, \<open>find_best\<close> returns none if and only if there is no digit cell, and a coordinate it
  returns is a digit cell whose score (digit value divided by distance) is greatest among all
  digit cells. In particular, when the digit cells are exactly a \<open>3\<close> at distance 1
  (score 3) and a \<open>9\<close> at distance 5 (score 9/5), it returns the cell at distance 1.
\<close>

theorem find_best_maximal:
  assumes "\<forall>p. digit_cell w p \<longrightarrow> 1 \<le> distance (head s) p"
  shows "(\<exists>res. find_best w s = Inr res
          \<and> (res = None \<longleftrightarrow> (\<forall>p. \<not> digit_cell w p))
          \<and> (\<forall>b. res = Some b \<longrightarrow>
                digit_cell w b \<and> (\<forall>p. digit_cell w p \<longrightarrow> score w s p \<le> score w s b)))
       \<and> ((\<forall>p. digit_cell w p \<longleftrightarrow> p = p3 \<or> p = p9)
            \<and> symbol_at w p3 = CHR ''3'' \<and> distance (head s) p3 = 1
            \<and> symbol_at w p9 = CHR ''9'' \<and> distance (head s) p9 = 5
          \<longrightarrow> score w s p3 = 3 \<and> score w s p9 = 9 / 5 \<and> find_best w s = Inr (Some p3))"
proof -
  from assms have nz: "\<forall>p. digit_cell w p \<longrightarrow> distance (head s) p \<noteq> 0" by fastforce
  note r = find_best_result [OF nz]
  have "score w s p3 = 3 \<and> score w s p9 = 9 / 5 \<and> find_best w s = Inr (Some p3)"
    if h: "(\<forall>p. digit_cell w p \<longleftrightarrow> p = p3 \<or> p = p9)
            \<and> symbol_at w p3 = CHR ''3'' \<and> distance (head s) p3 = 1
            \<and> symbol_at w p9 = CHR ''9'' \<and> distance (head s) p9 = 5"
  proof -
    from h have s3: "score w s p3 = 3" and s9: "score w s p9 = 9 / 5"
      by (simp_all add: score_def py_int_def)
    from r obtain res where res: "find_best w s = Inr res"
      and none: "res = None \<longleftrightarrow> (\<forall>p. \<not> digit_cell w p)"
      and some: "\<forall>b. res = Some b \<longrightarrow> digit_cell w b \<and> (\<forall>p. digit_cell w p \<longrightarrow> score w s p \<le> score w s b)"
      by blast
    from h have d3: "digit_cell w p3" by blast
    with none have "res \<noteq> None" by blast
    then obtain b where b: "res = Some b" by blast
    with some have "digit_cell w b" and "\<forall>p. digit_cell w p \<longrightarrow> score w s p \<le> score w s b"
      by blast+
    with h d3 have "b = p3 \<or> b = p9" and "score w s p3 \<le> score w s b" by blast+
    with s3 s9 have "b = p3" by auto
    with res b s3 s9 show ?thesis by simp
  qed
  with r show ?thesis by blast
qed

theorem find_best_maximal_witness:
  "find_best (rows_world [''3@    9'']) (new_snake\<lparr>head := (1, 0)\<rparr>) = Inr (Some (0, 0))
   \<and> symbol_at (rows_world [''3@    9'']) (0, 0) = CHR ''3''
   \<and> distance (head (new_snake\<lparr>head := (1, 0)\<rparr>)) (0, 0) = 1
   \<and> symbol_at (rows_world [''3@    9'']) (6, 0) = CHR ''9''
   \<and> distance (head (new_snake\<lparr>head := (1, 0)\<rparr>)) (6, 0) = 5
   \<and> score (rows_world [''3@    9'']) (new_snake\<lparr>head := (1, 0)\<rparr>) (0, 0) = 3
   \<and> score (rows_world [''3@    9'']) (new_snake\<lparr>head := (1, 0)\<rparr>) (6, 0) = 9 / 5"
proof -
  let ?w = "rows_world [''3@    9'']"
  let ?s = "new_snake\<lparr>head := (1, 0)\<rparr>"
  have far: "\<forall>p. digit_cell ?w p \<longrightarrow> 1 \<le> distance (head ?s) p"
    by (auto simp: two_rewards_digit_cells distance_def)
  have cells: "\<forall>p. digit_cell ?w p \<longleftrightarrow> p = (0, 0) \<or> p = (6, 0)"
    by (simp add: two_rewards_digit_cells)
  have facts: "symbol_at ?w (0, 0) = CHR ''3'' \<and> distance (head ?s) (0, 0) = 1
      \<and> symbol_at ?w (6, 0) = CHR ''9'' \<and> distance (head ?s) (6, 0) = 5"
    by (simp add: symbol_at_def rows_world_def distance_def)
  from find_best_maximal [OF far, of "(0, 0)" "(6, 0)"] cells facts show ?thesis by blast
qed

subsection \<open>C4: the choice of the fallback\<close>

text \<open>
  Claim C4: with length at least 1, \<open>backup\<close> returns none exactly when all four neighbours
  of the head are blocked; if some non-blocked neighbour has room 1, it returns a direction
  whose neighbour has room 1; otherwise it returns a direction to a non-blocked neighbour whose
  room is greatest among the non-blocked neighbours. This holds for every outcome of the
  shuffle.
\<close>

theorem backup_choice:
  assumes "1 \<le> length_s s"
  shows "\<exists>res. fst (backup w s r) = Inr res
      \<and> (res = None \<longleftrightarrow> (\<forall>d\<in>set DIRECTIONS. is_block w s (move (head s) d)))
      \<and> (\<forall>d. res = Some d \<longrightarrow> d \<in> set DIRECTIONS \<and> \<not> is_block w s (move (head s) d)
           \<and> (if \<exists>d'\<in>set DIRECTIONS. \<not> is_block w s (move (head s) d')
                      \<and> free_room w s (move (head s) d') = Inr 1
              then free_room w s (move (head s) d) = Inr 1
              else \<exists>room. free_room w s (move (head s) d) = Inr room
                     \<and> (\<forall>d'\<in>set DIRECTIONS. \<not> is_block w s (move (head s) d') \<longrightarrow>
                           (\<exists>room'. free_room w s (move (head s) d') = Inr room' \<and> room' \<le> room))))"
  by (rule backup_result)

theorem backup_choice_witness:
  "1 \<le> length_s (new_snake\<lparr>length_s := 3\<rparr>)
   \<and> fst (backup (rows_world [''@  '']) (new_snake\<lparr>length_s := 3\<rparr>) (\<lambda>_. 0)) = Inr (Some RIGHT)
   \<and> RIGHT \<in> set DIRECTIONS
   \<and> \<not> is_block (rows_world [''@  '']) (new_snake\<lparr>length_s := 3\<rparr>)
         (move (head (new_snake\<lparr>length_s := 3\<rparr>)) RIGHT)
   \<and> free_room (rows_world [''@  '']) (new_snake\<lparr>length_s := 3\<rparr>)
         (move (head (new_snake\<lparr>length_s := 3\<rparr>)) RIGHT) = Inr (2 / 3)"
proof -
  let ?w = "rows_world [''@  '']"
  let ?s = "new_snake\<lparr>length_s := 3\<rparr>"
  have len: "1 \<le> length_s ?s" by simp
  from backup_choice [OF len, of ?w "\<lambda>_. 0"]
  obtain res where r: "fst (backup ?w ?s (\<lambda>_. 0)) = Inr res"
    and d: "\<forall>d. res = Some d \<longrightarrow> d \<in> set DIRECTIONS \<and> \<not> is_block ?w ?s (move (head ?s) d)"
    by blast
  from r have "res = Some RIGHT" unfolding corridor_backup by simp
  with d have "RIGHT \<in> set DIRECTIONS \<and> \<not> is_block ?w ?s (move (head ?s) RIGHT)" by blast
  with len corridor_backup corridor_room show ?thesis by blast
qed

subsection \<open>C5: directions when only the x axis differs\<close>

text \<open>
  Claim C5, as stated: in an iteration of the planner with \<open>dy = 0\<close> and \<open>dx \<noteq> 0\<close> the
  backup set consists of exactly one direction. From (1, 0) towards (0, 0) the code prefers
  \<open>LEFT\<close> and its backup set holds the two directions \<open>UP\<close> and \<open>DOWN\<close>.
\<close>

theorem dy_zero_backups_counterexample:
  "preferred_direction (1, 0) (0, 0) = LEFT \<and> backup_directions (1, 0) (0, 0) = [UP, DOWN]
   \<and> UP \<noteq> DOWN"
  by (simp add: preferred_direction_def backup_directions_def UP_def DOWN_def)

text \<open>
  Claim C5, amended: in an iteration with \<open>dy = 0\<close> and \<open>dx \<noteq> 0\<close> the preferred direction
  is the horizontal direction toward the target (\<open>LEFT\<close> when \<open>dx > 0\<close>, else \<open>RIGHT\<close>; the
  step brings the position one cell closer), and the backup set consists of exactly the two
  vertical directions \<open>UP\<close> and \<open>DOWN\<close>.
\<close>

theorem dy_zero_directions:
  assumes "snd c - snd point = 0" and "fst c - fst point \<noteq> 0"
  shows "preferred_direction c point = (if fst c - fst point > 0 then LEFT else RIGHT)
       \<and> distance (move c (preferred_direction c point)) point = distance c point - 1
       \<and> set (backup_directions c point) = {UP, DOWN}
       \<and> distinct (backup_directions c point)"
  using assms
  by (auto simp: preferred_direction_def backup_directions_def Let_def distance_def move_def
      UP_def DOWN_def LEFT_def RIGHT_def)

theorem dy_zero_directions_witness:
  "snd (1::int, 0::int) - snd (0::int, 0::int) = 0
   \<and> fst (1::int, 0::int) - fst (0::int, 0::int) \<noteq> 0
   \<and> preferred_direction (1, 0) (0, 0) = LEFT
   \<and> set (backup_directions (1, 0) (0, 0)) = {UP, DOWN}"
  using dy_zero_directions [of "(1, 0)" "(0, 0)"] by simp

subsection \<open>C6: the range of the reachable fraction\<close>

text \<open>
  Claim C6, as stated: with length at least 1, \<open>free_room\<close> returns a value strictly greater
  than 0 and at most 1 from every start, a blocked start included. On the world of the single
  stone cell, with length 1, the start (0, 0) is blocked, the fill yields nothing and
  \<open>free_room\<close> returns \<open>0 / 1 = 0\<close>.
\<close>

theorem free_room_blocked_start_counterexample:
  "1 \<le> length_s (new_snake\<lparr>length_s := 1\<rparr>)
   \<and> is_block (rows_world [''#'']) (new_snake\<lparr>length_s := 1\<rparr>) (0, 0)
   \<and> free_room (rows_world [''#'']) (new_snake\<lparr>length_s := 1\<rparr>) (0, 0) = Inr 0"
  by (simp add: free_room_def flood_fill_def is_block_def rows_world_def new_snake_def)

text \<open>
  Claim C6, amended: with length at least 1, \<open>free_room\<close> returns (without raising) a value
  between 0 and 1 inclusive, and the value is 0 exactly when the start is blocked; so it is
  strictly greater than 0 and at most 1 from every start that is not blocked.
\<close>

theorem free_room_range:
  assumes "1 \<le> length_s s"
  shows "\<exists>room. free_room w s start = Inr room \<and> 0 \<le> room \<and> room \<le> 1
           \<and> (room = 0 \<longleftrightarrow> is_block w s start)"
proof (cases "is_block w s start")
  case True
  with assms show ?thesis by (simp add: free_room_eq)
next
  case False
  note card_reachable_pos [OF False]
  with False assms show ?thesis by (simp add: free_room_eq)
qed

theorem free_room_range_witness:
  "1 \<le> length_s (new_snake\<lparr>length_s := 3\<rparr>)
   \<and> free_room (rows_world [''  '']) (new_snake\<lparr>length_s := 3\<rparr>) (0, 0) = Inr (2 / 3)
   \<and> \<not> is_block (rows_world [''  '']) (new_snake\<lparr>length_s := 3\<rparr>) (0, 0)"
proof -
  have "free_room (rows_world [''  '']) (new_snake\<lparr>length_s := 3\<rparr>) (0, 0) = Inr (2 / 3)"
    by (simp add: free_room_eq two_cells_reachable two_cells_open)
  with free_room_range [of "new_snake\<lparr>length_s := 3\<rparr>" "rows_world [''  '']" "(0, 0)"]
  show ?thesis by (simp add: two_cells_open)
qed

subsection \<open>C7: the reachable fraction and the limit\<close>

text \<open>
  Claim C7: for a fixed world and start, \<open>free_room\<close> with length \<open>limit \<ge> 1\<close> does not
  decrease when the limit decreases (\<open>l1 \<le> l2\<close> gives a value at \<open>l1\<close> at least the value
  at \<open>l2\<close>), and it is exactly 1 whenever the limit is at most the number of open cells
  reachable from the start.
\<close>

theorem free_room_limit:
  "(1 \<le> l1 \<and> l1 \<le> l2 \<longrightarrow>
      (\<exists>a b. free_room w (s\<lparr>length_s := l2\<rparr>) p = Inr a
            \<and> free_room w (s\<lparr>length_s := l1\<rparr>) p = Inr b \<and> a \<le> b))
   \<and> (1 \<le> l \<and> l \<le> card (reachable (is_block w s) p)
        \<longrightarrow> free_room w (s\<lparr>length_s := l\<rparr>) p = Inr 1)"
proof (intro conjI impI)
  assume l: "1 \<le> l1 \<and> l1 \<le> l2"
  let ?n = "card (reachable (is_block w s) p)"
  show "\<exists>a b. free_room w (s\<lparr>length_s := l2\<rparr>) p = Inr a
             \<and> free_room w (s\<lparr>length_s := l1\<rparr>) p = Inr b \<and> a \<le> b"
  proof (cases "is_block w s p")
    case True
    with l show ?thesis by (simp add: free_room_eq)
  next
    case False
    show ?thesis
    proof (cases "l1 \<le> ?n")
      case True
      with l False show ?thesis by (simp add: free_room_eq)
    next
      case far: False
      with l have "(of_nat ?n :: rat) / of_nat l2 \<le> of_nat ?n / of_nat l1"
        by (intro frac_le) simp_all
      with far l False show ?thesis by (simp add: free_room_eq)
    qed
  qed
next
  assume "1 \<le> l \<and> l \<le> card (reachable (is_block w s) p)"
  moreover from this have "\<not> is_block w s p"
    using length_flood_fill [of w s p] flood_fill_blocked [of w s p] by auto
  ultimately show "free_room w (s\<lparr>length_s := l\<rparr>) p = Inr 1"
    by (simp add: free_room_eq)
qed

theorem free_room_limit_witness:
  "free_room (rows_world [''  '']) (new_snake\<lparr>length_s := 3\<rparr>) (0, 0) = Inr (2 / 3)
   \<and> card (reachable (is_block (rows_world [''  '']) new_snake) (0, 0)) = 2
   \<and> free_room (rows_world [''  '']) (new_snake\<lparr>length_s := 2\<rparr>) (0, 0) = Inr 1"
proof -
  have "free_room (rows_world [''  '']) (new_snake\<lparr>length_s := 3\<rparr>) (0, 0) = Inr (2 / 3)"
    by (simp add: free_room_eq two_cells_reachable two_cells_open)
  with free_room_limit [of 2 3 "rows_world [''  '']" new_snake "(0, 0)" 2] two_cells_reachable
  show ?thesis by simp
qed

subsection \<open>C8: a target on the head\<close>

text \<open>
  Claim C8: when the chosen target is the head itself, \<open>next_direction\<close> returns the result of
  \<open>backup\<close>. On a world with no cell of the snake the head stays where \<open>__init__\<close> put it,
  at (0, 0); with a digit there the distance is 0, \<open>compute_score\<close> divides by it, and the
  exception leaves \<open>find_best\<close> and \<open>next_direction\<close>: the planner and \<open>backup\<close> never run.
  In no world does \<open>find_best\<close> return the head (lemma \<open>find_best_never_head\<close>), so the
  last line of \<open>next_direction\<close>, which handles the empty plan, is never reached.
\<close>

theorem next_direction_digit_on_head:
  "head (get_position (rows_world [''5 '']) new_snake) = (0, 0)
   \<and> digit_cell (rows_world [''5 '']) (0, 0)
   \<and> find_best (rows_world [''5 '']) (get_position (rows_world [''5 '']) new_snake)
       = Inl ZeroDivisionError
   \<and> fst (next_direction (rows_world [''5 '']) new_snake r) = Inl ZeroDivisionError"
  by (simp add: next_direction_def find_best_def get_position_def scan_cells_def rows_world_def
      new_snake_def digits_def distance_def compute_score_def Let_def digit_cell_def
      in_bounds_def symbol_at_def)

subsection \<open>C9: the planner scenario\<close>

text \<open>
  Claim C9: on a 10 by 10 grid that is empty (no blocking symbol, no digit, no cell of the
  snake) except for the head of the snake on (5, 5), its only cell, and one reward \<open>9\<close> on
  (5, 2), the state tracker finds the head on (5, 5) and length 1, the planner produces exactly
  the plan (5, 4), (5, 3), (5, 2) with direction \<open>UP\<close> at every step, and \<open>next_direction\<close>
  returns \<open>UP\<close>. The symbols of the head, of the tail and of the blocked set are those of
  the snake, whatever they are, as long as the head symbol is neither the tail symbol nor a
  digit and \<open>9\<close> is not blocked.
\<close>

theorem planner_scenario:
  assumes size: "SIZE_X w = 10" "SIZE_Y w = 10"
    and head_cell: "cell w 5 5 = (CH_HEAD s0, color s0)"
    and head_sym: "CH_HEAD s0 \<noteq> CH_TAIL s0" "CH_HEAD s0 \<notin> set digits"
    and reward: "fst (cell w 2 5) = CHR ''9''" "snd (cell w 2 5) \<noteq> color s0" "CHR ''9'' \<notin> BLOCKS s0"
    and empty: "\<forall>x<10. \<forall>y<10. (x, y) \<noteq> (5, 5) \<and> (x, y) \<noteq> (5, 2) \<longrightarrow>
                  fst (cell w y x) \<notin> BLOCKS s0 \<and> fst (cell w y x) \<notin> set digits
                  \<and> snd (cell w y x) \<noteq> color s0"
  shows "head (get_position w s0) = (5, 5) \<and> length_s (get_position w s0) = 1
       \<and> find_best w (get_position w s0) = Inr (Some (5, 2))
       \<and> get_to w (get_position w s0) (5, 2) r
           = (Inr (), (get_position w s0)\<lparr>plan := [(5, 4), (5, 3), (5, 2)],
                                          plan_directions := [UP, UP, UP]\<rparr>, r)
       \<and> fst (next_direction w s0 r) = Inr (Some UP)"
proof -
  let ?s = "get_position w s0"
  have e: "fst (cell w y x) \<notin> BLOCKS s0 \<and> fst (cell w y x) \<notin> set digits
           \<and> snd (cell w y x) \<noteq> color s0"
    if "x < 10" "y < 10" "(x, y) \<noteq> (5, 5)" "(x, y) \<noteq> (5, 2)" for x y
    using empty that by blast
  have "\<forall>x<SIZE_X w. \<forall>y<SIZE_Y w. (x, y) \<noteq> (5, 5) \<longrightarrow> snd (cell w y x) \<noteq> color s0"
  proof (intro allI impI)
    fix x y assume a: "x < SIZE_X w" "y < SIZE_Y w" "(x, y) \<noteq> (5, 5)"
    show "snd (cell w y x) \<noteq> color s0"
    proof (cases "(x, y) = (5, 2)")
      case True
      with reward(2) show ?thesis by simp
    next
      case False
      with a size e [of x y] show ?thesis by simp
    qed
  qed
  from get_position_single [of 5 w 5 s0, OF _ _ head_cell head_sym(1) this] size
  have pos: "?s = s0\<lparr>head := (5, 5), body := [(5, 5)], length_s := 1\<rparr>" by simp
  then have hd: "head ?s = (5, 5)" and len: "length_s ?s = 1" and blocks: "BLOCKS ?s = BLOCKS s0"
    by simp_all
  \<comment> \<open>the target selector\<close>
  have cells: "digit_cell w p \<longleftrightarrow> p = (5, 2)" for p
  proof
    assume "digit_cell w p"
    then obtain x y where xy: "x < 10" "y < 10" "p = (int x, int y)" "fst (cell w y x) \<in> set digits"
      using size by (auto simp: digit_cell_iff set_scan_cells)
    have "(x, y) = (5, 2)"
    proof (rule ccontr)
      assume n: "(x, y) \<noteq> (5, 2)"
      show False
      proof (cases "(x, y) = (5, 5)")
        case True
        with xy(4) head_cell head_sym(2) show False by simp
      next
        case False
        with n xy e [of x y] show False by simp
      qed
    qed
    with xy show "p = (5, 2)" by simp
  next
    assume "p = (5, 2)"
    with reward(1) size show "digit_cell w p"
      by (simp add: digit_cell_def in_bounds_def symbol_at_def digits_def)
  qed
  have "\<forall>p. digit_cell w p \<longrightarrow> distance (head ?s) p \<noteq> 0"
    by (simp add: cells hd distance_def)
  from find_best_result [OF this] obtain res where res: "find_best w ?s = Inr res"
    and none: "res = None \<longleftrightarrow> (\<forall>p. \<not> digit_cell w p)"
    and some: "\<forall>b. res = Some b \<longrightarrow> digit_cell w b"
    by blast
  from none cells have "res \<noteq> None" by blast
  then obtain b where "res = Some b" by blast
  with some cells have "res = Some (5, 2)" by blast
  with res have best: "find_best w ?s = Inr (Some (5, 2))" by simp
  \<comment> \<open>the planner\<close>
  have sym: "fst (cell w (nat y) 5) \<notin> BLOCKS s0" if "y = 4 \<or> y = 3 \<or> y = 2" for y :: int
    using that
  proof (elim disjE)
    assume "y = 4"
    with e [of 5 4] show ?thesis by simp
  next
    assume "y = 3"
    with e [of 5 3] show ?thesis by simp
  next
    assume "y = 2"
    with reward show ?thesis by simp
  qed
  have free: "\<not> is_block w t (5, y)" if "y = 4 \<or> y = 3 \<or> y = 2" "BLOCKS t = BLOCKS s0" for y t
  proof -
    from that(1) have "0 \<le> y" "y < 10" by auto
    with sym [OF that(1)] that(2) size show ?thesis by (simp add: is_block_def)
  qed
  let ?s1 = "?s\<lparr>plan := [], plan_directions := []\<rparr>"
  let ?s2 = "?s\<lparr>plan := [(5, 4)], plan_directions := [UP]\<rparr>"
  let ?s3 = "?s\<lparr>plan := [(5, 4), (5, 3)], plan_directions := [UP, UP]\<rparr>"
  let ?s4 = "?s\<lparr>plan := [(5, 4), (5, 3), (5, 2)], plan_directions := [UP, UP, UP]\<rparr>"
  have up: "preferred_direction (5, y) (5, 2) = UP" if "2 < y" for y
    using that by (simp add: preferred_direction_def)
  have mv: "move (5, y) UP = (5, y - 1)" for y
    by (simp add: move_def UP_def)
  have step: "get_to_loop w t (5, 2) (5, y) r
                = get_to_loop w (t\<lparr>plan := plan t @ [(5, y - 1)], plan_directions := plan_directions t @ [UP]\<rparr>)
                    (5, 2) (5, y - 1) r"
    if "y = 5 \<or> y = 4 \<or> y = 3" "BLOCKS t = BLOCKS s0" "length_s t \<le> 1" "(5, y - 1) \<notin> set (plan t)"
    for y t
  proof -
    from that(1) have y: "2 < y" "y - 1 = 4 \<or> y - 1 = 3 \<or> y - 1 = 2" by auto
    have ne: "(5, y) \<noteq> ((5, 2) :: Position)" using y(1) by simp
    have nb: "\<not> is_block w t (move (5, y) (preferred_direction (5, y) (5, 2)))"
      unfolding up [OF y(1)] mv by (rule free [OF y(2) that(2)])
    have np: "move (5, y) (preferred_direction (5, y) (5, 2)) \<notin> set (plan t)"
      unfolding up [OF y(1)] mv by (rule that(4))
    from get_to_loop_preferred [OF ne nb np that(3), of r] show ?thesis
      unfolding up [OF y(1)] mv .
  qed
  have "get_to_loop w ?s1 (5, 2) (5, 5) r = get_to_loop w ?s2 (5, 2) (5, 4) r"
    using step [of 5 ?s1] by (simp add: len blocks)
  also have "\<dots> = get_to_loop w ?s3 (5, 2) (5, 3) r"
    using step [of 4 ?s2] by (simp add: len blocks)
  also have "\<dots> = get_to_loop w ?s4 (5, 2) (5, 2) r"
    using step [of 3 ?s3] by (simp add: len blocks)
  also have "\<dots> = (Inr (), ?s4, r)" by (rule get_to_loop_at_target)
  finally have plan: "get_to w ?s (5, 2) r = (Inr (), ?s4, r)"
    by (simp add: get_to_def hd)
  from best plan have "fst (next_direction w s0 r) = Inr (Some UP)"
    by (simp add: next_direction_def Let_def)
  with hd len best plan show ?thesis by simp
qed

theorem planner_scenario_witness:
  "SIZE_X scenario_world = 10 \<and> SIZE_Y scenario_world = 10
   \<and> cell scenario_world 5 5 = (CH_HEAD new_snake, color new_snake)
   \<and> fst (cell scenario_world 2 5) = CHR ''9''
   \<and> get_to scenario_world (get_position scenario_world new_snake) (5, 2) (\<lambda>_. 0)
       = (Inr (), (get_position scenario_world new_snake)\<lparr>plan := [(5, 4), (5, 3), (5, 2)],
                     plan_directions := [UP, UP, UP]\<rparr>, (\<lambda>_. 0))
   \<and> fst (next_direction scenario_world new_snake (\<lambda>_. 0)) = Inr (Some UP)"
proof -
  have size: "SIZE_X scenario_world = 10" "SIZE_Y scenario_world = 10"
    by (simp_all add: scenario_world_def)
  have head_cell: "cell scenario_world 5 5 = (CH_HEAD new_snake, color new_snake)"
    by (simp add: scenario_world_def new_snake_def)
  have head_sym: "CH_HEAD new_snake \<noteq> CH_TAIL new_snake" "CH_HEAD new_snake \<notin> set digits"
    by (simp_all add: new_snake_def digits_def)
  have reward: "fst (cell scenario_world 2 5) = CHR ''9''"
    "snd (cell scenario_world 2 5) \<noteq> color new_snake" "CHR ''9'' \<notin> BLOCKS new_snake"
    by (simp_all add: scenario_world_def new_snake_def)
  have empty: "\<forall>x<10. \<forall>y<10. (x, y) \<noteq> (5, 5) \<and> (x, y) \<noteq> (5, 2) \<longrightarrow>
                  fst (cell scenario_world y x) \<notin> BLOCKS new_snake
                  \<and> fst (cell scenario_world y x) \<notin> set digits
                  \<and> snd (cell scenario_world y x) \<noteq> color new_snake"
    by (simp add: scenario_world_def new_snake_def digits_def)
  from planner_scenario [OF size head_cell head_sym reward empty, of "\<lambda>_. 0"] size head_cell reward(1)
  show ?thesis by blast
qed

subsection \<open>C10: the planner terminates\<close>

text \<open>
  Claim C10, as stated: the loop of \<open>get_to\<close> executes at most width \<open>\<times>\<close> height
  iterations before it reaches the target or fails. On the grid of two open cells in a row,
  with the head on (0, 0) (a snake with no cell on the grid, as \<open>__init__\<close> leaves it) and the
  target (0, 5) below the grid, the loop appends (1, 0), then (0, 0), and raises only in its
  third iteration: after 2 = width \<open>\<times>\<close> height iterations it has neither reached the target
  nor failed.
\<close>

theorem get_to_iterations_counterexample:
  "SIZE_X (rows_world [''  '']) * SIZE_Y (rows_world [''  '']) = 2
   \<and> get_to_fuel 2 (rows_world [''  '']) (new_snake\<lparr>plan := [], plan_directions := []\<rparr>)
        (0, 5) (head new_snake) (\<lambda>_. 0) = None
   \<and> get_to_fuel 3 (rows_world [''  '']) (new_snake\<lparr>plan := [], plan_directions := []\<rparr>)
        (0, 5) (head new_snake) (\<lambda>_. 0)
      = Some (Inl CannotContinue,
              new_snake\<lparr>plan := [(1, 0), (0, 0)], plan_directions := [RIGHT, LEFT]\<rparr>, (\<lambda>_. 0))"
  by (simp add: planner_eval get_to_fuel.simps numeral_2_eq_2 numeral_3_eq_3)

text \<open>
  Claim C10, amended: for every world and every target \<open>get_to\<close> terminates. Each loop
  iteration either raises the planner-failure exception or appends to the plan an in-bounds
  coordinate not already present in the plan, so the plan never holds more than
  width \<open>\<times>\<close> height coordinates and the loop body is entered at most
  width \<open>\<times>\<close> height + 1 times (at most width \<open>\<times>\<close> height appending iterations, then
  possibly the raising one); at most width \<open>\<times>\<close> height times when the target lies inside
  the grid or the call reaches the target.
\<close>

theorem get_to_terminates:
  "(\<exists>res. get_to_fuel (SIZE_X w * SIZE_Y w + 1) w (s\<lparr>plan := [], plan_directions := []\<rparr>)
            point (head s) r = Some res
          \<and> get_to w s point r = res)
   \<and> (in_bounds w point \<or> fst (get_to w s point r) = Inr () \<longrightarrow>
        get_to_fuel (SIZE_X w * SIZE_Y w) w (s\<lparr>plan := [], plan_directions := []\<rparr>)
          point (head s) r
          = Some (get_to w s point r))
   \<and> (fst (try_directions w s1 c (preferred_direction c point) (backup_directions c point) r1)
          = Inr None
        \<or> (\<exists>d. fst (try_directions w s1 c (preferred_direction c point)
                      (backup_directions c point) r1) = Inr (Some d)
               \<and> in_bounds w (move c d) \<and> move c d \<notin> set (plan s1)))
   \<and> length (plan (fst (snd (get_to w s point r)))) \<le> SIZE_X w * SIZE_Y w"
proof (intro conjI impI)
  let ?s0 = "s\<lparr>plan := [], plan_directions := []\<rparr>"
  have le: "card (open_cells w ?s0 - set (plan ?s0)) \<le> SIZE_X w * SIZE_Y w"
    using card_open_cells_le [of w s] by (simp add: open_cells_plan_update)
  then have "card (open_cells w ?s0 - set (plan ?s0)) < SIZE_X w * SIZE_Y w + 1" by simp
  from get_to_fuel_enough [of w ?s0 "SIZE_X w * SIZE_Y w + 1" point "head s" r, OF disjI1, OF this]
  show "\<exists>res. get_to_fuel (SIZE_X w * SIZE_Y w + 1) w ?s0 point (head s) r = Some res
              \<and> get_to w s point r = res"
    unfolding get_to_def by blast
  show "get_to_fuel (SIZE_X w * SIZE_Y w) w ?s0 point (head s) r = Some (get_to w s point r)"
    if h: "in_bounds w point \<or> fst (get_to w s point r) = Inr ()"
  proof (cases "in_bounds w point \<and> is_block w s point")
    case True
    then have "card (open_cells w ?s0 - set (plan ?s0)) < SIZE_X w * SIZE_Y w"
      using card_open_cells_blocked [of w point s] by (simp add: open_cells_plan_update)
    from get_to_fuel_enough [of w ?s0 "SIZE_X w * SIZE_Y w" point "head s" r, OF disjI1, OF this]
    show ?thesis unfolding get_to_def .
  next
    case False
    with h have "point \<in> open_cells w ?s0 - set (plan ?s0)
                 \<or> fst (get_to_loop w ?s0 point (head s) r) = Inr ()"
      by (auto simp: open_cells_def get_to_def)
    with le get_to_fuel_enough [of w ?s0 "SIZE_X w * SIZE_Y w" point "head s" r]
    show ?thesis unfolding get_to_def by blast
  qed
next
  let ?t = "try_directions w s1 c (preferred_direction c point) (backup_directions c point) r1"
  show "fst ?t = Inr None
        \<or> (\<exists>d. fst ?t = Inr (Some d) \<and> in_bounds w (move c d) \<and> move c d \<notin> set (plan s1))"
  proof (cases rule: try_directions_cases
           [of w s1 c "preferred_direction c point" "backup_directions c point" r1])
    case (1 r2)
    then show ?thesis by simp
  next
    case (2 d r2)
    from try_directions_step [OF 2]
    have "\<not> is_block w s1 (move c d)" "move c d \<notin> set (plan s1)" by simp_all
    with 2 show ?thesis by (auto simp: not_blocked_in_bounds)
  qed
next
  show "length (plan (fst (snd (get_to w s point r)))) \<le> SIZE_X w * SIZE_Y w"
    by (rule get_to_plan_length)
qed

theorem get_to_terminates_witness:
  "in_bounds (rows_world [''   '']) (2, 0)
   \<and> get_to_fuel (SIZE_X (rows_world [''   '']) * SIZE_Y (rows_world [''   '']))
        (rows_world [''   '']) (new_snake\<lparr>plan := [], plan_directions := []\<rparr>)
        (2, 0) (head new_snake) (\<lambda>_. 0)
      = Some (Inr (), new_snake\<lparr>plan := [(1, 0), (2, 0)], plan_directions := [RIGHT, RIGHT]\<rparr>,
              (\<lambda>_. 0))"
proof -
  have "in_bounds (rows_world [''   '']) (2, 0)"
    by (simp add: in_bounds_def rows_world_def)
  with get_to_terminates [of "rows_world [''   '']" new_snake "(2, 0)" "\<lambda>_. 0"]
  show ?thesis by (simp add: three_cells_get_to)
qed

end
